theory Spec2Isabelle
  imports Main "HOL-Library.Multiset"
begin

section \<open>Messages, commands and the program (tea.go, lines 12-74)\<close>

text \<open>
  \<^verbatim>\<open>ReadKey\<close> and \<^verbatim>\<open>KeyMsg\<close> live in a file of the package that is not part of the
  sources at hand; a decoded key is a string here, and so is the text of a Go error.
\<close>

type_synonym key = string
type_synonym error = string

text \<open>
  \<^verbatim>\<open>Msg\<close> is \<^verbatim>\<open>interface{}\<close>; the loop tells three shapes apart by a type assertion:
  \<^verbatim>\<open>quitMsg\<close>, \<^verbatim>\<open>batchMsg\<close> (a slice of commands) and everything else. The key messages of
  the input goroutine are singled out among the rest, \<open>AppMsg\<close> carries any other value.
  \<^verbatim>\<open>Cmd\<close> is \<^verbatim>\<open>func() Msg\<close> and may be nil: a non-nil command is identified with the message
  its call returns. \<^verbatim>\<open>Quit\<close> is such a function; \<open>Quit\<close> below is what it returns, and the
  command is \<open>Fn Quit\<close>.
\<close>

datatype 'a Msg = quitMsg | batchMsg "'a Cmd list" | KeyMsg key | AppMsg 'a
and 'a Cmd = NilCmd | Fn "'a Msg"

definition Batch :: "'a Cmd list \<Rightarrow> 'a Cmd" where
  "Batch cmds = (if length cmds = 0 then NilCmd else Fn (batchMsg cmds))"

definition Quit :: "'a Msg" where
  "Quit = quitMsg"

text \<open>
  The struct \<^verbatim>\<open>Program\<close>. The three functions come from the application and are taken as
  pure and total; \<^verbatim>\<open>init\<close> takes no argument, so it is the pair it returns. The mutex only
  brackets the two terminal calls of \<^verbatim>\<open>render\<close>, which the model performs in one step.
\<close>

record ('a, 'm) Program =
  init :: "'m \<times> 'a Cmd"
  update :: "'a Msg \<Rightarrow> 'm \<Rightarrow> 'm \<times> 'a Cmd"
  view :: "'m \<Rightarrow> string"
  currentRender :: string

text \<open>\<^verbatim>\<open>NewProgram\<close> leaves \<^verbatim>\<open>currentRender\<close> at Go's zero value, the empty string.\<close>

definition NewProgram ::
  "'m \<times> 'a Cmd \<Rightarrow> ('a Msg \<Rightarrow> 'm \<Rightarrow> 'm \<times> 'a Cmd) \<Rightarrow> ('m \<Rightarrow> string) \<Rightarrow> ('a, 'm) Program" where
  "NewProgram i u v = \<lparr>init = i, update = u, view = v, currentRender = []\<rparr>"

section \<open>The renderer (tea.go, lines 160-183)\<close>

definition LF :: string where
  "LF = [CHR 0x0A]"

definition CRLF :: string where
  "CRLF = [CHR 0x0D, CHR 0x0A]"

text \<open>
  \<^verbatim>\<open>strings.Count(s, substr)\<close>: the number of non-overlapping instances of \<open>substr\<close>
  in \<open>s\<close>, scanning from the left; for an empty \<open>substr\<close> Go answers one more than the
  number of code points (of bytes, on the ASCII text considered here).
\<close>

function Count :: "string \<Rightarrow> string \<Rightarrow> nat" where
  "Count s substr =
     (if substr = [] then length s + 1
      else if length s < length substr then 0
      else if take (length substr) s = substr
        then 1 + Count (drop (length substr) s) substr
      else Count (tl s) substr)"
  by pat_completeness auto
termination
  by (relation "measure (\<lambda>(s, substr). length s)") (auto simp: neq_Nil_conv)

declare Count.simps [simp del]

text \<open>
  \<^verbatim>\<open>strings.Replace(s, old, new, -1)\<close>: every non-overlapping instance of \<open>old\<close>
  replaced by \<open>new\<close>; an empty \<open>old\<close> matches before every character and at the end.
\<close>

function Replace :: "string \<Rightarrow> string \<Rightarrow> string \<Rightarrow> string" where
  "Replace s old new =
     (if old = [] then new @ concat (map (\<lambda>ch. ch # new) s)
      else if length s < length old then s
      else if take (length old) s = old
        then new @ Replace (drop (length old) s) old new
      else hd s # Replace (tl s) old new)"
  by pat_completeness auto
termination
  by (relation "measure (\<lambda>(s, old, new). length s)") (auto simp: neq_Nil_conv)

declare Replace.simps [simp del]

text \<open>The two terminal calls of \<^verbatim>\<open>render\<close>: \<^verbatim>\<open>termenv.ClearLines\<close> and \<^verbatim>\<open>io.WriteString\<close>.\<close>

datatype term_op = ClearLines nat | WriteString string

text \<open>
  \<^verbatim>\<open>render\<close> returns the terminal calls it made, in order, and the program with its
  frame cache. As in the source, the cache is overwritten (line 169) before the line count
  is taken from it (line 170), and the count is taken before the line breaks are rewritten
  (line 175).
\<close>

definition render :: "('a, 'm) Program \<Rightarrow> 'm \<Rightarrow> term_op list \<times> ('a, 'm) Program" where
  "render p model =
     (let view0 = view p model in
      if view0 = currentRender p then ([], p)
      else
        let p' = p\<lparr>currentRender := view0\<rparr>;
            linesRendered = Count (currentRender p') CRLF;
            view1 = Replace view0 LF CRLF
        in ((if linesRendered > 0 then [ClearLines linesRendered] else []) @ [WriteString view1],
            p'))"

definition writes :: "term_op list \<Rightarrow> nat" where
  "writes ops = length (filter (\<lambda>x. case x of WriteString s \<Rightarrow> True | ClearLines n \<Rightarrow> False) ops)"

section \<open>Start: the goroutines and their channels (tea.go, lines 76-158)\<close>

text \<open>
  \<^verbatim>\<open>Start\<close> runs the loop, the input goroutine (lines 105-113), the goroutine of lines
  96-98 (started for the initial command), the dispatching goroutine (lines 116-129) and
  one goroutine per dispatched command (lines 123-125). They meet on the unbuffered
  channels \<^verbatim>\<open>cmds\<close>, \<^verbatim>\<open>msgs\<close> and \<^verbatim>\<open>errs\<close>, where a send and its receive are one joint step,
  and on the closing of \<^verbatim>\<open>done\<close>. Each goroutine is described by the place where it waits
  and the local variables it holds there; a schedule chooses which of them moves next and
  what the terminal and the keyboard answer. What a goroutine does between two of its
  waits is taken as part of the step that ends the first wait. One variable is shared:
  the goroutine of lines 96-98 sends \<^verbatim>\<open>Start\<close>'s variable \<^verbatim>\<open>cmd\<close>, which line 153 assigns again,
  so what it hands over is the value the variable has when the goroutine comes to
  evaluate it, the initial command or a later result of \<^verbatim>\<open>update\<close>.
\<close>

text \<open>
  The loop: before \<^verbatim>\<open>initTerminal\<close> (line 87); at the \<^verbatim>\<open>select\<close> of line 133; inside the
  \<^verbatim>\<open>range\<close> of line 147 with the commands still to send; at the send of line 154 with the
  model already replaced; returned, with the error of \<^verbatim>\<open>Start\<close>.
\<close>

datatype ('a, 'm) main_state =
    M_start
  | M_select 'm
  | M_batch 'm "'a Cmd list"
  | M_send 'm "'a Cmd"
  | M_returned "error option"

text \<open>
  The input goroutine: at \<^verbatim>\<open>ReadKey\<close> (line 107), at the send on \<^verbatim>\<open>errs\<close> (line 109), at
  the send on \<^verbatim>\<open>msgs\<close> (line 111), with its variables \<^verbatim>\<open>msg\<close> and \<^verbatim>\<open>err\<close>. There is no
  \<^verbatim>\<open>return\<close> after line 109: the send of line 111 comes next.
\<close>

datatype feeder_state = F_none | F_read | F_errs key error | F_msgs key "error option"

datatype disp_state = D_none | D_select | D_returned

text \<open>
  The goroutine of lines 96-98: not started, about to evaluate \<^verbatim>\<open>cmd\<close>, at the send of
  line 97 with the value it found.
\<close>

datatype 'a init_state = I_none | I_started | I_send "'a Cmd"

text \<open>A command's goroutine: about to call the command, then at the send of its result.\<close>

datatype 'a runner = R_call "'a Cmd" | R_send "'a Msg"

datatype origin = Input | Command

datatype sender = ByInit | ByLoop

text \<open>
  What happens, in order of occurrence. \<open>Submit who cmd\<close>: the dispatching goroutine has
  received \<open>cmd\<close> on \<^verbatim>\<open>cmds\<close> from \<open>who\<close>. \<open>Spawn who cmd\<close>: it has started a goroutine for
  it (line 123). \<open>Exec cmd\<close>: that goroutine has called the command. \<open>Recv og msg\<close>: the
  loop has received \<open>msg\<close> on \<^verbatim>\<open>msgs\<close>, from the input goroutine or from a command's.
  \<open>Update msg\<close>: the loop has called \<^verbatim>\<open>update\<close> on \<open>msg\<close>.
\<close>

datatype 'a event =
    InitTerminal "error option"
  | RestoreTerminal
  | Term term_op
  | ReadKey key "error option"
  | RecvErr error
  | Recv origin "'a Msg"
  | Update "'a Msg"
  | Submit sender "'a Cmd"
  | Spawn sender "'a Cmd"
  | Exec "'a Cmd"
  | CloseDone
  | DispatchStop
  | Return "error option"

text \<open>
  A configuration: the program with its frame cache, the goroutines, \<^verbatim>\<open>Start\<close>'s variable
  \<^verbatim>\<open>cmd\<close> (assigned on lines 94 and 153), whether \<^verbatim>\<open>done\<close> is closed, and what has happened
  so far.
\<close>

record ('a, 'm) config =
  prog :: "('a, 'm) Program"
  main :: "('a, 'm) main_state"
  cmdvar :: "'a Cmd"
  initcmd :: "'a init_state"
  feeder :: feeder_state
  disp :: disp_state
  runners :: "'a runner list"
  done_closed :: bool
  trace :: "'a event list"

definition init_config :: "('a, 'm) Program \<Rightarrow> ('a, 'm) config" where
  "init_config p =
     \<lparr>prog = p, main = M_start, cmdvar = NilCmd, initcmd = I_none, feeder = F_none,
      disp = D_none,
      runners = [], done_closed = False, trace = []\<rparr>"

text \<open>
  Lines 87-129, up to the first \<^verbatim>\<open>select\<close>. When \<^verbatim>\<open>initTerminal\<close> fails, \<^verbatim>\<open>Start\<close> returns before
  the \<^verbatim>\<open>defer\<close> of line 91 and before any goroutine is started.
\<close>

definition start :: "error option \<Rightarrow> ('a, 'm) config \<Rightarrow> ('a, 'm) config" where
  "start r c =
     (case r of
        Some e \<Rightarrow>
          c\<lparr>main := M_returned (Some e),
            trace := trace c @ [InitTerminal (Some e), Return (Some e)]\<rparr>
      | None \<Rightarrow>
          (let (model, cmd) = init (prog c);
               (ops, p') = render (prog c) model
           in c\<lparr>prog := p',
                main := M_select model,
                cmdvar := cmd,
                initcmd := (if cmd \<noteq> NilCmd then I_started else I_none),
                feeder := F_read,
                disp := D_select,
                trace := trace c @ InitTerminal None # map Term ops\<rparr>))"

text \<open>
  Lines 137-153: the loop has received \<open>msg\<close> at its \<^verbatim>\<open>select\<close>. A \<^verbatim>\<open>quitMsg\<close> closes
  \<^verbatim>\<open>done\<close> and returns nil, the deferred \<^verbatim>\<open>restoreTerminal\<close> running on the way out; a
  \<^verbatim>\<open>batchMsg\<close> enters the \<^verbatim>\<open>range\<close> loop; anything else goes to \<^verbatim>\<open>update\<close>, and the loop
  waits at line 154 to send the command that came back.
\<close>

definition batch_next :: "'m \<Rightarrow> 'a Cmd list \<Rightarrow> ('a, 'm) main_state" where
  "batch_next model cs = (if cs = [] then M_select model else M_batch model cs)"

fun handle_msg :: "origin \<Rightarrow> 'm \<Rightarrow> 'a Msg \<Rightarrow> ('a, 'm) config \<Rightarrow> ('a, 'm) config" where
  "handle_msg og model quitMsg c =
     c\<lparr>main := M_returned None, done_closed := True,
       trace := trace c @ [Recv og quitMsg, CloseDone, RestoreTerminal, Return None]\<rparr>"
| "handle_msg og model (batchMsg batchedCmds) c =
     c\<lparr>main := batch_next model batchedCmds,
       trace := trace c @ [Recv og (batchMsg batchedCmds)]\<rparr>"
| "handle_msg og model msg c =
     (let (model', cmd) = update (prog c) msg model
      in c\<lparr>main := M_send model' cmd, cmdvar := cmd,
           trace := trace c @ [Recv og msg, Update msg]\<rparr>)"

text \<open>Lines 134-136: the loop has received an error.\<close>

definition handle_err :: "error \<Rightarrow> ('a, 'm) config \<Rightarrow> ('a, 'm) config" where
  "handle_err e c =
     c\<lparr>main := M_returned (Some e), done_closed := True,
       trace := trace c @ [RecvErr e, CloseDone, RestoreTerminal, Return (Some e)]\<rparr>"

text \<open>
  Lines 121-127: the dispatching goroutine has received \<open>cmd\<close> on \<^verbatim>\<open>cmds\<close>; it starts a
  goroutine for it unless it is nil.
\<close>

definition dispatch :: "sender \<Rightarrow> 'a Cmd \<Rightarrow> ('a, 'm) config \<Rightarrow> ('a, 'm) config" where
  "dispatch who cmd c =
     (if cmd \<noteq> NilCmd
      then c\<lparr>runners := runners c @ [R_call cmd], trace := trace c @ [Submit who cmd, Spawn who cmd]\<rparr>
      else c\<lparr>trace := trace c @ [Submit who cmd]\<rparr>)"

text \<open>Line 155, after the send of line 154 went through.\<close>

definition render_step :: "'m \<Rightarrow> ('a, 'm) config \<Rightarrow> ('a, 'm) config" where
  "render_step model c =
     (let (ops, p') = render (prog c) model
      in c\<lparr>prog := p', main := M_select model, trace := trace c @ map Term ops\<rparr>)"

datatype choice =
    C_initTerminal "error option"
  | C_readKey key "error option"
  | C_errs
  | C_msgs_key
  | C_call nat
  | C_msgs_cmd nat
  | C_init_eval
  | C_cmds_init
  | C_cmds_loop
  | C_done

text \<open>
  One step of the system; \<open>None\<close> when the chosen goroutine cannot move. \<open>C_initTerminal r\<close>:
  \<^verbatim>\<open>initTerminal\<close> answers \<open>r\<close>. \<open>C_readKey k r\<close>: \<^verbatim>\<open>ReadKey\<close> answers \<open>(k, r)\<close>. \<open>C_errs\<close>: the
  send of line 109 meets the \<^verbatim>\<open>select\<close>. \<open>C_msgs_key\<close>: the send of line 111 meets the
  \<^verbatim>\<open>select\<close>. \<open>C_call i\<close>: the \<open>i\<close>-th command goroutine calls its command. \<open>C_msgs_cmd i\<close>:
  its send of line 124 meets the \<^verbatim>\<open>select\<close>. \<open>C_init_eval\<close>: the goroutine of lines 96-98
  evaluates \<^verbatim>\<open>cmd\<close>. \<open>C_cmds_init\<close>, \<open>C_cmds_loop\<close>: the send of
  line 97, or that of line 148 or 154, meets the receive of line 121. \<open>C_done\<close>: the
  dispatching goroutine finds \<^verbatim>\<open>done\<close> closed and returns.
\<close>

definition step :: "('a, 'm) config \<Rightarrow> choice \<Rightarrow> ('a, 'm) config option" where
  "step c ch =
     (case ch of
        C_initTerminal r \<Rightarrow>
          (case main c of M_start \<Rightarrow> Some (start r c) | _ \<Rightarrow> None)
      | C_readKey k r \<Rightarrow>
          (case feeder c of
             F_read \<Rightarrow>
               Some (c\<lparr>feeder := (case r of Some e \<Rightarrow> F_errs k e | None \<Rightarrow> F_msgs k None),
                       trace := trace c @ [ReadKey k r]\<rparr>)
           | _ \<Rightarrow> None)
      | C_errs \<Rightarrow>
          (case (feeder c, main c) of
             (F_errs k e, M_select model) \<Rightarrow>
               Some (handle_err e (c\<lparr>feeder := F_msgs k (Some e)\<rparr>))
           | _ \<Rightarrow> None)
      | C_msgs_key \<Rightarrow>
          (case (feeder c, main c) of
             (F_msgs k r, M_select model) \<Rightarrow>
               Some (handle_msg Input model (KeyMsg k) (c\<lparr>feeder := F_read\<rparr>))
           | _ \<Rightarrow> None)
      | C_call i \<Rightarrow>
          (if i < length (runners c) then
             (case runners c ! i of
                R_call (Fn m) \<Rightarrow>
                  Some (c\<lparr>runners := (runners c)[i := R_send m],
                          trace := trace c @ [Exec (Fn m)]\<rparr>)
              | _ \<Rightarrow> None)
           else None)
      | C_msgs_cmd i \<Rightarrow>
          (if i < length (runners c) then
             (case (runners c ! i, main c) of
                (R_send m, M_select model) \<Rightarrow>
                  Some (handle_msg Command model m
                          (c\<lparr>runners := take i (runners c) @ drop (Suc i) (runners c)\<rparr>))
              | _ \<Rightarrow> None)
           else None)
      | C_init_eval \<Rightarrow>
          (case initcmd c of
             I_started \<Rightarrow> Some (c\<lparr>initcmd := I_send (cmdvar c)\<rparr>)
           | _ \<Rightarrow> None)
      | C_cmds_init \<Rightarrow>
          (case (initcmd c, disp c) of
             (I_send cmd, D_select) \<Rightarrow> Some (dispatch ByInit cmd (c\<lparr>initcmd := I_none\<rparr>))
           | _ \<Rightarrow> None)
      | C_cmds_loop \<Rightarrow>
          (case (main c, disp c) of
             (M_batch model (cmd # rest), D_select) \<Rightarrow>
               Some (dispatch ByLoop cmd (c\<lparr>main := batch_next model rest\<rparr>))
           | (M_send model cmd, D_select) \<Rightarrow>
               Some (render_step model (dispatch ByLoop cmd c))
           | _ \<Rightarrow> None)
      | C_done \<Rightarrow>
          (if done_closed c \<and> disp c = D_select
           then Some (c\<lparr>disp := D_returned, trace := trace c @ [DispatchStop]\<rparr>)
           else None))"

fun exec :: "('a, 'm) config \<Rightarrow> choice list \<Rightarrow> ('a, 'm) config option" where
  "exec c [] = Some c"
| "exec c (ch # sched) = (case step c ch of None \<Rightarrow> None | Some c' \<Rightarrow> exec c' sched)"

text \<open>\<^verbatim>\<open>Start\<close> on a program, under a schedule.\<close>

definition Start :: "('a, 'm) Program \<Rightarrow> choice list \<Rightarrow> ('a, 'm) config option" where
  "Start p sched = exec (init_config p) sched"

section \<open>Reading a run\<close>

text \<open>The events between two configurations of a run.\<close>

definition since :: "('a, 'm) config \<Rightarrow> ('a, 'm) config \<Rightarrow> 'a event list" where
  "since c0 c = drop (length (trace c0)) (trace c)"

text \<open>The loop's variable \<^verbatim>\<open>model\<close>, while the loop runs.\<close>

fun model_of :: "('a, 'm) main_state \<Rightarrow> 'm option" where
  "model_of M_start = None"
| "model_of (M_select model) = Some model"
| "model_of (M_batch model cs) = Some model"
| "model_of (M_send model cmd) = Some model"
| "model_of (M_returned r) = None"

text \<open>A message that is neither a \<^verbatim>\<open>quitMsg\<close> nor a \<^verbatim>\<open>batchMsg\<close>.\<close>

definition ordinary :: "'a Msg \<Rightarrow> bool" where
  "ordinary msg = (case msg of quitMsg \<Rightarrow> False | batchMsg cs \<Rightarrow> False | _ \<Rightarrow> True)"

text \<open>The messages the loop received, whatever their origin, in order.\<close>

definition delivered :: "'a event list \<Rightarrow> 'a Msg list" where
  "delivered tr = concat (map (\<lambda>ev. case ev of Recv og msg \<Rightarrow> [msg] | _ \<Rightarrow> []) tr)"

text \<open>The messages the loop received from command goroutines.\<close>

definition results :: "'a event list \<Rightarrow> 'a Msg list" where
  "results tr =
     concat (map (\<lambda>ev. case ev of Recv og msg \<Rightarrow> (if og = Command then [msg] else [])
                              | _ \<Rightarrow> []) tr)"

text \<open>The commands handed to the dispatching goroutine, by anyone and by one sender.\<close>

definition submitted :: "'a event list \<Rightarrow> 'a Cmd list" where
  "submitted tr = concat (map (\<lambda>ev. case ev of Submit who cmd \<Rightarrow> [cmd] | _ \<Rightarrow> []) tr)"

definition submitted_by :: "sender \<Rightarrow> 'a event list \<Rightarrow> 'a Cmd list" where
  "submitted_by s tr =
     concat (map (\<lambda>ev. case ev of Submit who cmd \<Rightarrow> (if who = s then [cmd] else [])
                              | _ \<Rightarrow> []) tr)"

text \<open>The commands for which a goroutine was started, and those that were called.\<close>

definition spawned :: "'a event list \<Rightarrow> 'a Cmd list" where
  "spawned tr = concat (map (\<lambda>ev. case ev of Spawn who cmd \<Rightarrow> [cmd] | _ \<Rightarrow> []) tr)"

definition spawned_by :: "sender \<Rightarrow> 'a event list \<Rightarrow> 'a Cmd list" where
  "spawned_by s tr =
     concat (map (\<lambda>ev. case ev of Spawn who cmd \<Rightarrow> (if who = s then [cmd] else [])
                              | _ \<Rightarrow> []) tr)"

definition executed :: "'a event list \<Rightarrow> 'a Cmd list" where
  "executed tr = concat (map (\<lambda>ev. case ev of Exec cmd \<Rightarrow> [cmd] | _ \<Rightarrow> []) tr)"

text \<open>The choices in which the loop receives at its \<^verbatim>\<open>select\<close>.\<close>

fun is_receive :: "choice \<Rightarrow> bool" where
  "is_receive C_errs = True"
| "is_receive C_msgs_key = True"
| "is_receive (C_msgs_cmd i) = True"
| "is_receive ch = False"

text \<open>What the input goroutine did: its reads, and what the loop received from it.\<close>

definition reads :: "'a event list \<Rightarrow> (key \<times> error option) list" where
  "reads tr = concat (map (\<lambda>ev. case ev of ReadKey k r \<Rightarrow> [(k, r)] | _ \<Rightarrow> []) tr)"

definition keys_received :: "'a event list \<Rightarrow> 'a Msg list" where
  "keys_received tr =
     concat (map (\<lambda>ev. case ev of Recv og msg \<Rightarrow> (if og = Input then [msg] else [])
                              | _ \<Rightarrow> []) tr)"

text \<open>The errors the loop received on \<^verbatim>\<open>errs\<close>.\<close>

definition errors_received :: "'a event list \<Rightarrow> error list" where
  "errors_received tr = concat (map (\<lambda>ev. case ev of RecvErr e \<Rightarrow> [e] | _ \<Rightarrow> []) tr)"

section \<open>Properties of events and configurations used in the proofs\<close>

text \<open>
  The events that can still happen once the loop has returned: reads of the input
  goroutine, the hand-over of the initial command, calls of commands, the return of the
  dispatching goroutine.
\<close>

definition background :: "'a event \<Rightarrow> bool" where
  "background ev =
     (case ev of
        ReadKey k r \<Rightarrow> True
      | Exec cmd \<Rightarrow> True
      | Submit who cmd \<Rightarrow> who = ByInit
      | Spawn who cmd \<Rightarrow> who = ByInit
      | DispatchStop \<Rightarrow> True
      | _ \<Rightarrow> False)"

text \<open>The events that are neither a step of the input goroutine nor an error received.\<close>

definition feeder_quiet :: "'a event \<Rightarrow> bool" where
  "feeder_quiet ev =
     (case ev of ReadKey k r \<Rightarrow> False | Recv og msg \<Rightarrow> og \<noteq> Input | RecvErr e \<Rightarrow> False
      | _ \<Rightarrow> True)"

text \<open>
  Before \<^verbatim>\<open>initTerminal\<close> no goroutine exists and nothing has happened; while the loop runs
  the dispatching goroutine is at its \<^verbatim>\<open>select\<close> and \<^verbatim>\<open>done\<close> is open.
\<close>

definition well_formed :: "('a, 'm) config \<Rightarrow> bool" where
  "well_formed c =
     ((main c = M_start \<longrightarrow>
         feeder c = F_none \<and> disp c = D_none \<and> initcmd c = I_none \<and> runners c = [] \<and>
         \<not> done_closed c \<and> trace c = []) \<and>
      (model_of (main c) \<noteq> None \<longrightarrow> disp c = D_select \<and> \<not> done_closed c))"

text \<open>
  The functions of the program never change, and the loop's model is the fold of
  \<^verbatim>\<open>update\<close> over the ordinary messages received so far.
\<close>

definition fold_inv :: "('a, 'm) Program \<Rightarrow> ('a, 'm) config \<Rightarrow> bool" where
  "fold_inv p c =
     (update (prog c) = update p \<and> init (prog c) = init p \<and>
      (main c = M_start \<longrightarrow> prog c = p) \<and>
      (\<forall>model. model_of (main c) = Some model \<longrightarrow>
         model = foldl (\<lambda>s msg. fst (update p msg s)) (fst (init p))
                   (filter ordinary (delivered (trace c)))))"

text \<open>
  \<^verbatim>\<open>restoreTerminal\<close> has run once, right before \<^verbatim>\<open>Start\<close> returned \<open>r\<close>; and the state of the
  terminal calls in a run that entered raw mode.
\<close>

definition restored_once :: "error option \<Rightarrow> 'a event list \<Rightarrow> bool" where
  "restored_once r es =
     (\<exists>pre post. es = pre @ RestoreTerminal # Return r # post \<and>
        RestoreTerminal \<notin> set pre \<and> RestoreTerminal \<notin> set post)"

definition term_inv :: "('a, 'm) config \<Rightarrow> bool" where
  "term_inv c =
     (\<exists>es. trace c = InitTerminal None # es \<and> main c \<noteq> M_start \<and>
        (model_of (main c) \<noteq> None \<longrightarrow> RestoreTerminal \<notin> set es) \<and>
        (\<forall>r. main c = M_returned r \<longrightarrow> restored_once r es))"

text \<open>
  The command goroutines that have not called their command yet, and the results waiting
  to be sent; every goroutine started is in one of the two lists, or has delivered.
\<close>

definition calls :: "'a runner list \<Rightarrow> 'a Cmd list" where
  "calls rs = concat (map (\<lambda>r. case r of R_call cmd \<Rightarrow> [cmd] | R_send msg \<Rightarrow> []) rs)"

definition sends :: "'a runner list \<Rightarrow> 'a Msg list" where
  "sends rs = concat (map (\<lambda>r. case r of R_call cmd \<Rightarrow> [] | R_send msg \<Rightarrow> [msg]) rs)"

definition cmd_inv :: "('a, 'm) config \<Rightarrow> bool" where
  "cmd_inv c =
     (filter (\<lambda>cmd. cmd \<noteq> NilCmd) (submitted (trace c)) = spawned (trace c) \<and>
      mset (spawned (trace c)) = mset (executed (trace c)) + mset (calls (runners c)) \<and>
      mset (executed (trace c)) =
        mset (map Fn (results (trace c))) + mset (map Fn (sends (runners c))))"

section \<open>Programs used as concrete inputs\<close>

text \<open>A counter whose first frame has two lines and whose later frames have one.\<close>

definition two_frames :: "(nat, nat) Program" where
  "two_frames =
     NewProgram (0, NilCmd) (\<lambda>msg s. (Suc s, NilCmd))
       (\<lambda>s. if s = 0 then ''a'' @ LF @ ''b'' else ''c'')"

text \<open>The same, with the first frame's line break written as carriage return and line feed.\<close>

definition crlf_frames :: "(nat, nat) Program" where
  "crlf_frames =
     NewProgram (0, NilCmd) (\<lambda>msg s. (Suc s, NilCmd))
       (\<lambda>s. if s = 0 then ''a'' @ CRLF @ ''b'' else ''c'')"

text \<open>A program whose view is always the empty string.\<close>

definition blank :: "(nat, nat) Program" where
  "blank = NewProgram (0, NilCmd) (\<lambda>msg s. (s, NilCmd)) (\<lambda>s. [])"

text \<open>A program whose initial command is \<^verbatim>\<open>Quit\<close>.\<close>

definition quitter :: "(nat, nat) Program" where
  "quitter = NewProgram (0, Fn Quit) (\<lambda>msg s. (Suc s, NilCmd)) (\<lambda>s. ''x'')"

text \<open>
  A program whose initial command is a batch of two commands answering \<open>AppMsg 7\<close> and
  \<open>AppMsg 3\<close>, and whose update adds the number of an application message and otherwise
  doubles the state and adds one.
\<close>

definition ticker :: "(nat, nat) Program" where
  "ticker =
     NewProgram (0, Batch [Fn (AppMsg 7), Fn (AppMsg 3)])
       (\<lambda>msg s. (case msg of AppMsg n \<Rightarrow> s + n | _ \<Rightarrow> 2 * s + 1, NilCmd)) (\<lambda>s. ''x'')"

text \<open>A program whose initial command is a batch of three, the second of them nil.\<close>

definition batcher :: "(nat, nat) Program" where
  "batcher =
     NewProgram (0, Batch [Fn (AppMsg 1), NilCmd, Fn (AppMsg 2)])
       (\<lambda>msg s. (Suc s, NilCmd)) (\<lambda>s. ''x'')"

section \<open>Steps and runs\<close>

text \<open>The ways a step can be taken, one per place where a goroutine waits.\<close>

lemma step_cases [consumes 1, case_names initTerminal readKey errs msgs_key call msgs_cmd init_eval cmds_init cmds_batch cmds_send dn]:
  assumes "step c ch = Some c'"
  obtains
    r where "ch = C_initTerminal r" "main c = M_start" "c' = start r c"
  | k r where "ch = C_readKey k r" "feeder c = F_read"
      "c' = c\<lparr>feeder := (case r of Some e \<Rightarrow> F_errs k e | None \<Rightarrow> F_msgs k None),
               trace := trace c @ [ReadKey k r]\<rparr>"
  | k e model where "ch = C_errs" "feeder c = F_errs k e" "main c = M_select model"
      "c' = handle_err e (c\<lparr>feeder := F_msgs k (Some e)\<rparr>)"
  | k r model where "ch = C_msgs_key" "feeder c = F_msgs k r" "main c = M_select model"
      "c' = handle_msg Input model (KeyMsg k) (c\<lparr>feeder := F_read\<rparr>)"
  | i m where "ch = C_call i" "i < length (runners c)" "runners c ! i = R_call (Fn m)"
      "c' = c\<lparr>runners := (runners c)[i := R_send m], trace := trace c @ [Exec (Fn m)]\<rparr>"
  | i m model where "ch = C_msgs_cmd i" "i < length (runners c)" "runners c ! i = R_send m"
      "main c = M_select model"
      "c' = handle_msg Command model m
              (c\<lparr>runners := take i (runners c) @ drop (Suc i) (runners c)\<rparr>)"
  | "ch = C_init_eval" "initcmd c = I_started" "c' = c\<lparr>initcmd := I_send (cmdvar c)\<rparr>"
  | cmd where "ch = C_cmds_init" "initcmd c = I_send cmd" "disp c = D_select"
      "c' = dispatch ByInit cmd (c\<lparr>initcmd := I_none\<rparr>)"
  | model cmd rest where "ch = C_cmds_loop" "main c = M_batch model (cmd # rest)"
      "disp c = D_select" "c' = dispatch ByLoop cmd (c\<lparr>main := batch_next model rest\<rparr>)"
  | model cmd where "ch = C_cmds_loop" "main c = M_send model cmd" "disp c = D_select"
      "c' = render_step model (dispatch ByLoop cmd c)"
  | "ch = C_done" "done_closed c" "disp c = D_select"
      "c' = c\<lparr>disp := D_returned, trace := trace c @ [DispatchStop]\<rparr>"
proof (cases ch)
  case (C_initTerminal r)
  with assms that(1) show ?thesis
    by (auto simp: step_def split: main_state.splits)
next
  case (C_readKey k r)
  with assms that(2) show ?thesis
    by (auto simp: step_def split: feeder_state.splits)
next
  case C_errs
  with assms that(3) show ?thesis
    by (auto simp: step_def split: feeder_state.splits main_state.splits)
next
  case C_msgs_key
  with assms that(4) show ?thesis
    by (auto simp: step_def split: feeder_state.splits main_state.splits)
next
  case (C_call i)
  with assms that(5) show ?thesis
    by (auto simp: step_def split: if_splits runner.splits Cmd.splits)
next
  case (C_msgs_cmd i)
  with assms that(6) show ?thesis
    by (auto simp: step_def split: if_splits runner.splits main_state.splits)
next
  case C_init_eval
  with assms that(7) show ?thesis
    by (auto simp: step_def split: init_state.splits)
next
  case C_cmds_init
  with assms that(8) show ?thesis
    by (auto simp: step_def split: init_state.splits disp_state.splits)
next
  case C_cmds_loop
  with assms that(9,10) show ?thesis
    by (auto simp: step_def split: main_state.splits disp_state.splits list.splits)
next
  case C_done
  with assms that(11) show ?thesis
    by (auto simp: step_def split: if_splits)
qed

subsection \<open>The fields after each action\<close>

lemma start_fail_fields [simp]:
  "prog (start (Some e) c) = prog c"
  "main (start (Some e) c) = M_returned (Some e)"
  "cmdvar (start (Some e) c) = cmdvar c"
  "initcmd (start (Some e) c) = initcmd c"
  "feeder (start (Some e) c) = feeder c"
  "disp (start (Some e) c) = disp c"
  "runners (start (Some e) c) = runners c"
  "done_closed (start (Some e) c) = done_closed c"
  "trace (start (Some e) c) = trace c @ [InitTerminal (Some e), Return (Some e)]"
  by (simp_all add: start_def)

lemma start_ok_fields [simp]:
  "prog (start None c) = snd (render (prog c) (fst (init (prog c))))"
  "main (start None c) = M_select (fst (init (prog c)))"
  "cmdvar (start None c) = snd (init (prog c))"
  "initcmd (start None c) = (if snd (init (prog c)) \<noteq> NilCmd then I_started else I_none)"
  "feeder (start None c) = F_read"
  "disp (start None c) = D_select"
  "runners (start None c) = runners c"
  "done_closed (start None c) = done_closed c"
  "trace (start None c) =
     trace c @ InitTerminal None # map Term (fst (render (prog c) (fst (init (prog c)))))"
  by (simp_all add: start_def split_beta)

lemma handle_msg_fields [simp]:
  "prog (handle_msg og model msg c) = prog c"
  "initcmd (handle_msg og model msg c) = initcmd c"
  "feeder (handle_msg og model msg c) = feeder c"
  "disp (handle_msg og model msg c) = disp c"
  "runners (handle_msg og model msg c) = runners c"
  by (cases msg; simp add: split_beta)+

lemma main_handle_msg:
  "main (handle_msg og model msg c) =
     (case msg of
        quitMsg \<Rightarrow> M_returned None
      | batchMsg cs \<Rightarrow> batch_next model cs
      | _ \<Rightarrow> M_send (fst (update (prog c) msg model)) (snd (update (prog c) msg model)))"
  by (cases msg) (simp_all add: split_beta)

lemma trace_handle_msg:
  "trace (handle_msg og model msg c) =
     trace c @ Recv og msg #
       (case msg of
          quitMsg \<Rightarrow> [CloseDone, RestoreTerminal, Return None]
        | batchMsg cs \<Rightarrow> []
        | _ \<Rightarrow> [Update msg])"
  by (cases msg) (simp_all add: split_beta)

lemma done_handle_msg:
  "done_closed (handle_msg og model msg c) = (done_closed c \<or> msg = quitMsg)"
  by (cases msg) (simp_all add: split_beta)

lemma cmdvar_handle_msg:
  "cmdvar (handle_msg og model msg c) =
     (case msg of
        quitMsg \<Rightarrow> cmdvar c
      | batchMsg cs \<Rightarrow> cmdvar c
      | _ \<Rightarrow> snd (update (prog c) msg model))"
  by (cases msg) (simp_all add: split_beta)

declare handle_msg.simps [simp del]

lemma handle_err_fields [simp]:
  "prog (handle_err e c) = prog c"
  "main (handle_err e c) = M_returned (Some e)"
  "cmdvar (handle_err e c) = cmdvar c"
  "initcmd (handle_err e c) = initcmd c"
  "feeder (handle_err e c) = feeder c"
  "disp (handle_err e c) = disp c"
  "runners (handle_err e c) = runners c"
  "done_closed (handle_err e c) = True"
  "trace (handle_err e c) = trace c @ [RecvErr e, CloseDone, RestoreTerminal, Return (Some e)]"
  by (simp_all add: handle_err_def)

lemma dispatch_fields [simp]:
  "prog (dispatch who cmd c) = prog c"
  "main (dispatch who cmd c) = main c"
  "cmdvar (dispatch who cmd c) = cmdvar c"
  "initcmd (dispatch who cmd c) = initcmd c"
  "feeder (dispatch who cmd c) = feeder c"
  "disp (dispatch who cmd c) = disp c"
  "done_closed (dispatch who cmd c) = done_closed c"
  "runners (dispatch who cmd c) = runners c @ (if cmd \<noteq> NilCmd then [R_call cmd] else [])"
  "trace (dispatch who cmd c) =
     trace c @ Submit who cmd # (if cmd \<noteq> NilCmd then [Spawn who cmd] else [])"
  by (simp_all add: dispatch_def)

lemma render_step_fields [simp]:
  "prog (render_step model c) = snd (render (prog c) model)"
  "main (render_step model c) = M_select model"
  "cmdvar (render_step model c) = cmdvar c"
  "initcmd (render_step model c) = initcmd c"
  "feeder (render_step model c) = feeder c"
  "disp (render_step model c) = disp c"
  "runners (render_step model c) = runners c"
  "done_closed (render_step model c) = done_closed c"
  "trace (render_step model c) = trace c @ map Term (fst (render (prog c) model))"
  by (simp_all add: render_step_def split_beta)

lemma init_config_fields [simp]:
  "prog (init_config p) = p"
  "main (init_config p) = M_start"
  "cmdvar (init_config p) = NilCmd"
  "initcmd (init_config p) = I_none"
  "feeder (init_config p) = F_none"
  "disp (init_config p) = D_none"
  "runners (init_config p) = []"
  "done_closed (init_config p) = False"
  "trace (init_config p) = []"
  by (simp_all add: init_config_def)

subsection \<open>Runs\<close>

lemma exec_append:
  "exec c (s1 @ s2) = (case exec c s1 of None \<Rightarrow> None | Some c' \<Rightarrow> exec c' s2)"
  by (induction s1 arbitrary: c) (auto split: option.splits)

lemma exec_invariant:
  assumes run: "exec c sched = Some c'"
    and start: "P c"
    and pres: "\<And>c ch c'. P c \<Longrightarrow> step c ch = Some c' \<Longrightarrow> P c'"
  shows "P c'"
  using run start
proof (induction sched arbitrary: c)
  case Nil
  then show ?case by simp
next
  case (Cons ch sched)
  then show ?case
    by (auto split: option.splits dest: pres)
qed

lemma step_trace_ex:
  assumes "step c ch = Some c'"
  shows "\<exists>evs. trace c' = trace c @ evs"
  using assms
proof (cases rule: step_cases)
  case (initTerminal r)
  then show ?thesis by (cases r) simp_all
qed (simp_all add: trace_handle_msg)

lemma step_trace: "step c ch = Some c' \<Longrightarrow> trace c' = trace c @ since c c'"
  using step_trace_ex [of c ch c'] by (auto simp: since_def)

lemma exec_trace: "exec c sched = Some c' \<Longrightarrow> trace c' = trace c @ since c c'"
proof (induction sched arbitrary: c)
  case Nil
  then show ?case by (simp add: since_def)
next
  case (Cons ch sched)
  then obtain c1 where 1: "step c ch = Some c1" and 2: "exec c1 sched = Some c'"
    by (auto split: option.splits)
  from step_trace [OF 1] Cons.IH [OF 2] show ?case
    by (metis append.assoc append_eq_conv_conj since_def)
qed

lemma since_trans:
  "trace c1 = trace c0 @ since c0 c1 \<Longrightarrow> trace c2 = trace c1 @ since c1 c2 \<Longrightarrow>
   since c0 c2 = since c0 c1 @ since c1 c2"
  by (metis append.assoc append_eq_conv_conj since_def)

lemma since_append: "trace c' = trace c @ evs \<Longrightarrow> since c c' = evs"
  by (simp add: since_def)

text \<open>The definitions a concrete run is computed with.\<close>

lemmas run_defs =
  Start_def init_config_def step_def start_def handle_msg.simps handle_err_def dispatch_def
  render_step_def batch_next_def render_def NewProgram_def since_def Let_def
  Batch_def Quit_def LF_def CRLF_def Count.simps Replace.simps

section \<open>The renderer: what is cleared, and when nothing is written\<close>

lemma render_unchanged: "view p model = currentRender p \<Longrightarrow> render p model = ([], p)"
  by (simp add: render_def)

text \<open>
  What \<^verbatim>\<open>render\<close> does on a new frame: the number of lines cleared is the number of
  \<open>CRLF\<close> pairs in the new frame as the view function returned it.
\<close>

lemma render_changed:
  "view p model \<noteq> currentRender p \<Longrightarrow>
   render p model =
     ((if Count (view p model) CRLF > 0 then [ClearLines (Count (view p model) CRLF)] else [])
        @ [WriteString (Replace (view p model) LF CRLF)],
      p\<lparr>currentRender := view p model\<rparr>)"
  by (simp add: render_def Let_def)

lemma view_render [simp]: "view (snd (render p model)) = view p"
  by (simp add: render_def Let_def)

lemma currentRender_render [simp]: "currentRender (snd (render p model)) = view p model"
  by (simp add: render_def Let_def)

text \<open>
  C1 (fails on the code). The claim: on a changed frame, \<^verbatim>\<open>render\<close> clears as many lines
  as the previously cached frame has line breaks, and clears nothing exactly when it has
  none. On \<open>two_frames\<close> the first frame is \<^verbatim>\<open>a\nb\<close>: it is cached with one line break and
  written as two terminal lines. Rendering the next frame \<^verbatim>\<open>c\<close> then writes it without any
  \<^verbatim>\<open>ClearLines\<close> call, because line 170 counts \<^verbatim>\<open>\r\n\<close> in the cache after line 169 has
  overwritten it with the new frame. On \<open>crlf_frames\<close>, whose first frame is \<^verbatim>\<open>a\r\nb\<close>,
  the first call clears one line although the cache of a new program has no line break,
  and the second clears none although the cached frame has one.
\<close>

theorem render_clears_by_new_frame:
  "Count (currentRender (snd (render two_frames 0))) LF = 1 \<and>
   fst (render two_frames 0) = [WriteString (''a'' @ CRLF @ ''b'')] \<and>
   fst (render (snd (render two_frames 0)) 1) = [WriteString ''c''] \<and>
   Count (currentRender crlf_frames) CRLF = 0 \<and>
   Count (currentRender crlf_frames) LF = 0 \<and>
   fst (render crlf_frames 0) = [ClearLines 1, WriteString (''a'' @ [CHR 0x0D] @ CRLF @ ''b'')] \<and>
   Count (currentRender (snd (render crlf_frames 0))) CRLF = 1 \<and>
   fst (render (snd (render crlf_frames 0)) 1) = [WriteString ''c'']"
  by code_simp

text \<open>
  C8, as stated: two successive \<^verbatim>\<open>render\<close> calls on the same frame string make exactly one
  terminal write. Not so when the cache already holds that frame: on \<open>blank\<close>, whose
  frame is the empty string of a new program's cache, the two calls write nothing.
\<close>

theorem render_twice_counterexample:
  "view blank 0 = view blank 0 \<and>
   writes (fst (render blank 0) @ fst (render (snd (render blank 0)) 0)) \<noteq> 1"
  by code_simp

text \<open>
  C8, amended: of two successive \<^verbatim>\<open>render\<close> calls on states with the same frame string, the
  second makes no terminal call and leaves the cache as it is; together they make one
  terminal write when the frame differs from the cache before the first call, and none
  when it is equal to it.
\<close>

theorem render_twice_same_frame:
  assumes "view p m1 = view p m2"
  shows "render (snd (render p m1)) m2 = ([], snd (render p m1)) \<and>
         writes (fst (render p m1) @ fst (render (snd (render p m1)) m2)) =
           (if view p m1 = currentRender p then 0 else 1)"
proof -
  have second: "render (snd (render p m1)) m2 = ([], snd (render p m1))"
    using assms by (simp add: render_unchanged)
  have first: "writes (fst (render p m1)) = (if view p m1 = currentRender p then 0 else 1)"
    by (simp add: render_def Let_def writes_def)
  show ?thesis
    using first second by (simp add: writes_def)
qed

theorem render_twice_same_frame_witness:
  "render (snd (render two_frames 0)) 0 = ([], snd (render two_frames 0)) \<and>
   writes (fst (render two_frames 0) @ fst (render (snd (render two_frames 0)) 0)) = 1"
proof -
  have ne: "view two_frames 0 \<noteq> currentRender two_frames"
    by (simp add: two_frames_def NewProgram_def LF_def)
  note t = render_twice_same_frame [of two_frames 0 0, OF refl]
  from t have a: "render (snd (render two_frames 0)) 0 = ([], snd (render two_frames 0))"
    by (rule conjunct1)
  from t have "writes (fst (render two_frames 0) @ fst (render (snd (render two_frames 0)) 0)) =
      (if view two_frames 0 = currentRender two_frames then 0 else 1)"
    by (rule conjunct2)
  with ne have "writes (fst (render two_frames 0) @ fst (render (snd (render two_frames 0)) 0)) = 1"
    by (simp only: if_False)
  with a show ?thesis
    by (rule conjI)
qed

text \<open>
  C10: a new program's frame cache is the empty string; when the view of the initial state
  is the empty string too, rendering it makes no terminal call and returns the program
  unchanged, and \<^verbatim>\<open>Start\<close> reaches its first \<^verbatim>\<open>select\<close> with nothing written to the terminal
  and the program as it was.
\<close>

theorem initial_render_empty_view:
  assumes "v (fst i) = []"
  shows "currentRender (NewProgram i u v) = [] \<and>
         render (NewProgram i u v) (fst i) = ([], NewProgram i u v) \<and>
         Start (NewProgram i u v) [C_initTerminal None] =
           Some ((init_config (NewProgram i u v))
                   \<lparr>main := M_select (fst i), cmdvar := snd i,
                    initcmd := (if snd i \<noteq> NilCmd then I_started else I_none),
                    feeder := F_read, disp := D_select, trace := [InitTerminal None]\<rparr>)"
proof -
  have r: "render (NewProgram i u v) (fst i) = ([], NewProgram i u v)"
    using assms by (simp add: render_def NewProgram_def)
  show ?thesis
    using r
    by (simp add: Start_def step_def start_def init_config_def split_beta)
       (simp add: NewProgram_def)
qed

theorem initial_render_empty_view_witness:
  "render blank 0 = ([], blank) \<and>
   map_option trace (Start blank [C_initTerminal None]) = Some [InitTerminal None]"
  using initial_render_empty_view [of "\<lambda>s. []" "(0::nat, NilCmd)" "\<lambda>msg s. (s, NilCmd)"]
  by (auto simp: blank_def)

section \<open>The batch constructor\<close>

text \<open>
  C7: \<^verbatim>\<open>Batch\<close> of no commands is the nil command, and no call of \<^verbatim>\<open>Batch\<close> yields a command
  whose result is an empty batch message.
\<close>

theorem Batch_no_commands: "Batch [] = NilCmd \<and> (\<forall>cmds. Batch cmds \<noteq> Fn (batchMsg []))"
  by (simp add: Batch_def)

section \<open>What holds in every configuration of a run\<close>

lemma model_of_batch_next [simp]: "model_of (batch_next model cs) = Some model"
  by (simp add: batch_next_def)

lemma batch_next_neq [simp]:
  "batch_next model cs \<noteq> M_start"
  "batch_next model cs \<noteq> M_returned r"
  by (simp_all add: batch_next_def)

lemma batch_next_eq [simp]:
  "batch_next model cs \<noteq> M_send model' cmd"
  "M_send model' cmd \<noteq> batch_next model cs"
  "M_start \<noteq> batch_next model cs"
  "M_returned r \<noteq> batch_next model cs"
  "(M_batch model' (cmd # rest') = batch_next model cs) = (model' = model \<and> cs = cmd # rest')"
  "(batch_next model cs = M_batch model' (cmd # rest')) = (model' = model \<and> cs = cmd # rest')"
  by (auto simp: batch_next_def)

lemma handle_msg_not_start [simp]: "main (handle_msg og model msg c) \<noteq> M_start"
  by (cases msg) (simp_all add: main_handle_msg)

lemma not_start_step:
  assumes "step c ch = Some c'" and "main c \<noteq> M_start"
  shows "main c' \<noteq> M_start"
  using assms by (cases rule: step_cases) auto

lemma wf_init: "well_formed (init_config p)"
  by (simp add: well_formed_def)

lemma wf_step:
  assumes "well_formed c" and "step c ch = Some c'"
  shows "well_formed c'"
  using assms(2)
proof (cases rule: step_cases)
  case (initTerminal r)
  with assms(1) show ?thesis by (cases r) (auto simp: well_formed_def)
next
  case (msgs_key k r model)
  with assms(1) show ?thesis
    by (auto simp: well_formed_def main_handle_msg done_handle_msg)
next
  case (msgs_cmd i m model)
  with assms(1) show ?thesis
    by (cases m) (auto simp: well_formed_def main_handle_msg done_handle_msg)
qed (use assms(1) in \<open>auto simp: well_formed_def\<close>)

lemma wf_exec: "exec c sched = Some c' \<Longrightarrow> well_formed c \<Longrightarrow> well_formed c'"
  by (rule exec_invariant [where P = well_formed]) (auto intro: wf_step)

lemma wf_Start: "Start p sched = Some c \<Longrightarrow> well_formed c"
  unfolding Start_def by (erule wf_exec) (rule wf_init)

section \<open>Quitting\<close>

text \<open>Once the loop has returned, only background events happen and the loop stays returned.\<close>

lemma returned_step:
  assumes "step c ch = Some c'" and "main c = M_returned r"
  shows "main c' = M_returned r \<and> list_all background (since c c')"
  using assms
  by (cases rule: step_cases) (auto simp: background_def since_def)

lemma returned_exec:
  assumes "exec c sched = Some c'" and "main c = M_returned r"
  shows "main c' = M_returned r \<and> list_all background (since c c')"
  using assms
proof (induction sched arbitrary: c)
  case Nil
  then show ?case by (simp add: since_def)
next
  case (Cons ch sched)
  then obtain c1 where 1: "step c ch = Some c1" and 2: "exec c1 sched = Some c'"
    by (auto split: option.splits)
  from returned_step [OF 1 Cons.prems(2)]
  have m1: "main c1 = M_returned r" and b1: "list_all background (since c c1)"
    by simp_all
  from Cons.IH [OF 2 m1]
  have m2: "main c' = M_returned r" and b2: "list_all background (since c1 c')"
    by simp_all
  have "since c c' = since c c1 @ since c1 c'"
    using since_trans [OF step_trace [OF 1] exec_trace [OF 2]] .
  with m2 b1 b2 show ?case
    by simp
qed

text \<open>The step in which the loop receives a \<^verbatim>\<open>quitMsg\<close>: lines 140-143.\<close>

lemma quit_step:
  assumes "step c0 ch = Some c1"
    and "Recv og quitMsg \<in> set (since c0 c1)"
  shows "main c1 = M_returned None \<and>
         since c0 c1 = [Recv og quitMsg, CloseDone, RestoreTerminal, Return None]"
  using assms
proof (cases rule: step_cases)
  case (initTerminal r)
  then show ?thesis using assms(2) by (cases r) (auto simp: since_def)
next
  case (msgs_key k r model)
  then show ?thesis using assms(2)
    by (auto simp: since_def trace_handle_msg main_handle_msg)
next
  case (msgs_cmd i m model)
  then show ?thesis using assms(2)
    by (cases m) (auto simp: since_def trace_handle_msg main_handle_msg)
qed (auto simp: since_def split: option.splits)

text \<open>
  C4: whenever the loop receives a \<^verbatim>\<open>quitMsg\<close>, from whichever goroutine (\<open>og\<close>) and in
  whatever configuration \<open>c0\<close> of a run, \<^verbatim>\<open>Start\<close> has returned nil, and however the other
  goroutines go on (\<open>s2\<close>), it stays so and \<^verbatim>\<open>update\<close> is not called from that receive on.
\<close>

theorem quit_ends_Start:
  assumes "Start p s1 = Some c0"
    and "step c0 ch = Some c1"
    and "Recv og quitMsg \<in> set (since c0 c1)"
    and "exec c1 s2 = Some c"
  shows "main c = M_returned None \<and> (\<forall>msg. Update msg \<notin> set (since c0 c))"
proof -
  from quit_step [OF assms(2,3)]
  have m1: "main c1 = M_returned None"
    and e1: "since c0 c1 = [Recv og quitMsg, CloseDone, RestoreTerminal, Return None]"
    by simp_all
  from returned_exec [OF assms(4) m1]
  have m: "main c = M_returned None" and b: "list_all background (since c1 c)"
    by simp_all
  have "since c0 c = since c0 c1 @ since c1 c"
    using since_trans [OF step_trace [OF assms(2)] exec_trace [OF assms(4)]] .
  with e1 b have "\<forall>msg. Update msg \<notin> set (since c0 c)"
    by (auto simp: list_all_iff background_def)
  with m show ?thesis
    by simp
qed

theorem quit_ends_Start_witness:
  "\<exists>c0 c1 c.
     Start quitter [C_initTerminal None, C_init_eval, C_cmds_init, C_call 0] = Some c0 \<and>
     step c0 (C_msgs_cmd 0) = Some c1 \<and>
     Recv Command quitMsg \<in> set (since c0 c1) \<and>
     exec c1 [C_readKey ''a'' None] = Some c \<and>
     main c = M_returned None \<and> (\<forall>msg. Update msg \<notin> set (since c0 c))"
proof -
  define c0 where "c0 = the (Start quitter [C_initTerminal None, C_init_eval, C_cmds_init, C_call 0])"
  define c1 where "c1 = the (step c0 (C_msgs_cmd 0))"
  define c where "c = the (exec c1 [C_readKey ''a'' None])"
  have 0: "Start quitter [C_initTerminal None, C_init_eval, C_cmds_init, C_call 0] = Some c0"
    unfolding c0_def by (simp add: run_defs quitter_def)
  have 1: "step c0 (C_msgs_cmd 0) = Some c1"
    unfolding c1_def c0_def by (simp add: run_defs quitter_def)
  have r: "Recv Command quitMsg \<in> set (since c0 c1)"
    unfolding c1_def c0_def by (simp add: run_defs quitter_def)
  have 2: "exec c1 [C_readKey ''a'' None] = Some c"
    unfolding c_def c1_def c0_def by (simp add: run_defs quitter_def)
  from quit_ends_Start [OF 0 1 r 2] 0 1 r 2 show ?thesis
    by blast
qed

section \<open>The input goroutine after a failed read\<close>

lemma list_all_Term [simp]:
  "list_all feeder_quiet (map Term ops)"
  by (simp add: list_all_iff feeder_quiet_def)

lemma errs_wait_step:
  assumes "step c ch = Some c'" and "feeder c = F_errs k e" and "main c \<noteq> M_start"
    and "ch \<noteq> C_errs"
  shows "feeder c' = F_errs k e \<and> list_all feeder_quiet (since c c')"
  using assms(1)
proof (cases rule: step_cases)
  case (msgs_cmd i m model)
  with assms(2) show ?thesis
    by (cases m) (simp_all add: since_def trace_handle_msg feeder_quiet_def)
qed (use assms in \<open>simp_all add: since_def feeder_quiet_def\<close>)

lemma errs_send_step:
  assumes "step c C_errs = Some c'" and "feeder c = F_errs k e"
  shows "feeder c' = F_msgs k (Some e) \<and> main c' = M_returned (Some e) \<and>
         since c c' = [RecvErr e, CloseDone, RestoreTerminal, Return (Some e)]"
  using assms by (cases rule: step_cases) (simp_all add: since_def)

lemma feeder_stuck_step:
  assumes "step c ch = Some c'" and "feeder c = F_msgs k r" and "main c = M_returned x"
  shows "feeder c' = F_msgs k r \<and> main c' = M_returned x \<and>
         list_all feeder_quiet (since c c')"
  using assms by (cases rule: step_cases) (simp_all add: since_def feeder_quiet_def)

lemma feeder_quiet_lists:
  "list_all feeder_quiet evs \<Longrightarrow>
   reads evs = [] \<and> keys_received evs = [] \<and> errors_received evs = []"
  by (induction evs)
     (auto simp: reads_def keys_received_def errors_received_def feeder_quiet_def
           split: event.splits)

lemma feeder_quiet_but_one:
  assumes "list_all feeder_quiet xs" and "list_all feeder_quiet ys"
  shows "reads (xs @ RecvErr e # ys) = [] \<and> keys_received (xs @ RecvErr e # ys) = [] \<and>
         errors_received (xs @ RecvErr e # ys) = [e]"
proof -
  have "reads (xs @ RecvErr e # ys) = reads xs @ reads ys"
    and "keys_received (xs @ RecvErr e # ys) = keys_received xs @ keys_received ys"
    and "errors_received (xs @ RecvErr e # ys) = errors_received xs @ e # errors_received ys"
    by (simp_all add: reads_def keys_received_def errors_received_def)
  with feeder_quiet_lists [OF assms(1)] feeder_quiet_lists [OF assms(2)] show ?thesis
    by simp
qed

lemma feeder_stuck_exec:
  assumes "exec c sched = Some c'" and "feeder c = F_msgs k r" and "main c = M_returned x"
  shows "feeder c' = F_msgs k r \<and> main c' = M_returned x \<and>
         list_all feeder_quiet (since c c')"
  using assms
proof (induction sched arbitrary: c)
  case Nil
  then show ?case by (simp add: since_def)
next
  case (Cons ch sched)
  then obtain c1 where 1: "step c ch = Some c1" and 2: "exec c1 sched = Some c'"
    by (auto split: option.splits)
  note a = feeder_stuck_step [OF 1 Cons.prems(2,3)]
  from a have b: "feeder c1 = F_msgs k r" "main c1 = M_returned x"
    by simp_all
  note c = Cons.IH [OF 2 b]
  have "since c c' = since c c1 @ since c1 c'"
    using since_trans [OF step_trace [OF 1] exec_trace [OF 2]] .
  with a c show ?case
    by simp
qed

lemma errs_wait_exec:
  assumes "exec c sched = Some c'" and "feeder c = F_errs k e" and "main c \<noteq> M_start"
  shows "feeder c' = F_errs k e \<and> list_all feeder_quiet (since c c') \<or>
         feeder c' = F_msgs k (Some e) \<and> main c' = M_returned (Some e) \<and>
           (\<exists>xs ys. since c c' = xs @ RecvErr e # ys \<and>
              list_all feeder_quiet xs \<and> list_all feeder_quiet ys)"
  using assms
proof (induction sched arbitrary: c)
  case Nil
  then show ?case by (simp add: since_def)
next
  case (Cons ch sched)
  then obtain c1 where 1: "step c ch = Some c1" and 2: "exec c1 sched = Some c'"
    by (auto split: option.splits)
  have split: "since c c' = since c c1 @ since c1 c'"
    using since_trans [OF step_trace [OF 1] exec_trace [OF 2]] .
  show ?case
  proof (cases "ch = C_errs")
    case True
    with 1 have st: "step c C_errs = Some c1" by simp
    note a = errs_send_step [OF st Cons.prems(2)]
    from a have b: "feeder c1 = F_msgs k (Some e)" "main c1 = M_returned (Some e)"
      by simp_all
    note c = feeder_stuck_exec [OF 2 b]
    from a c split
    have "since c c' = [] @ RecvErr e # ([CloseDone, RestoreTerminal, Return (Some e)] @ since c1 c')"
      and "list_all feeder_quiet ([CloseDone, RestoreTerminal, Return (Some e)] @ since c1 c')"
      by (simp_all add: feeder_quiet_def)
    moreover have "list_all feeder_quiet ([] :: 'a event list)"
      by simp
    ultimately show ?thesis
      using c by blast
  next
    case False
    note a = errs_wait_step [OF 1 Cons.prems(2,3) False]
    from a have f1: "feeder c1 = F_errs k e" and q1: "list_all feeder_quiet (since c c1)"
      by simp_all
    have ns: "main c1 \<noteq> M_start"
      using not_start_step [OF 1 Cons.prems(3)] .
    from Cons.IH [OF 2 f1 ns] show ?thesis
    proof
      assume "feeder c' = F_errs k e \<and> list_all feeder_quiet (since c1 c')"
      with q1 split show ?thesis by simp
    next
      assume r: "feeder c' = F_msgs k (Some e) \<and> main c' = M_returned (Some e) \<and>
           (\<exists>xs ys. since c1 c' = xs @ RecvErr e # ys \<and>
              list_all feeder_quiet xs \<and> list_all feeder_quiet ys)"
      then obtain xs ys where x: "since c1 c' = xs @ RecvErr e # ys"
        "list_all feeder_quiet xs" "list_all feeder_quiet ys"
        by blast
      from x q1 split have "since c c' = (since c c1 @ xs) @ RecvErr e # ys"
        and "list_all feeder_quiet (since c c1 @ xs)"
        by simp_all
      with r x(3) show ?thesis
        by blast
    qed
  qed
qed

text \<open>
  After a failed read, in any configuration of a run: no further read, no message from
  the input goroutine, and the error either not yet received or received once with
  \<^verbatim>\<open>Start\<close> returning it.
\<close>

lemma feeder_after_failure:
  assumes "Start p s1 = Some c0"
    and "step c0 (C_readKey k (Some e)) = Some c1"
    and "exec c1 s2 = Some c"
  shows "reads (since c1 c) = [] \<and> keys_received (since c1 c) = [] \<and>
         (feeder c = F_errs k e \<and> errors_received (since c1 c) = [] \<and>
            (\<forall>model. main c = M_select model \<longrightarrow>
               map_option main (step c C_errs) = Some (M_returned (Some e))) \<or>
          feeder c = F_msgs k (Some e) \<and> errors_received (since c1 c) = [e] \<and>
            main c = M_returned (Some e))"
proof -
  have can: "map_option main (step c C_errs) = Some (M_returned (Some e))"
    if "feeder c = F_errs k e" and "main c = M_select model" for model
    using that by (simp add: step_def)
  from assms(2) have f0: "feeder c0 = F_read" and f1: "feeder c1 = F_errs k e"
    by (cases rule: step_cases; simp)+
  from wf_Start [OF assms(1)] f0 have "main c0 \<noteq> M_start"
    by (auto simp: well_formed_def)
  then have ns: "main c1 \<noteq> M_start"
    using not_start_step [OF assms(2)] by simp
  from errs_wait_exec [OF assms(3) f1 ns] show ?thesis
  proof
    assume a: "feeder c = F_errs k e \<and> list_all feeder_quiet (since c1 c)"
    with feeder_quiet_lists [of "since c1 c"] can show ?thesis
      by simp
  next
    assume b: "feeder c = F_msgs k (Some e) \<and> main c = M_returned (Some e) \<and>
           (\<exists>xs ys. since c1 c = xs @ RecvErr e # ys \<and>
              list_all feeder_quiet xs \<and> list_all feeder_quiet ys)"
    then obtain xs ys where x: "since c1 c = xs @ RecvErr e # ys"
      "list_all feeder_quiet xs" "list_all feeder_quiet ys"
      by blast
    from feeder_quiet_but_one [OF x(2,3), of e] x(1) b show ?thesis
      by simp
  qed
qed

text \<open>Waiting at line 109 with the loop returned, the input goroutine waits for ever.\<close>

lemma errs_wait_returned_step:
  assumes "step c ch = Some c'" and "main c = M_returned r" and "feeder c = F_errs k e"
  shows "main c' = M_returned r \<and> feeder c' = F_errs k e"
  using assms by (cases rule: step_cases) simp_all

lemma errs_wait_returned_exec:
  assumes "exec c sched = Some c'" and "main c = M_returned r" and "feeder c = F_errs k e"
  shows "main c' = M_returned r \<and> feeder c' = F_errs k e"
  using assms
proof (induction sched arbitrary: c)
  case Nil
  then show ?case by simp
next
  case (Cons ch sched)
  then obtain d where 1: "step c ch = Some d" and 2: "exec d sched = Some c'"
    by (auto split: option.splits)
  from errs_wait_returned_step [OF 1 Cons.prems(2,3)]
  have "main d = M_returned r" and "feeder d = F_errs k e"
    by simp_all
  with Cons.IH [OF 2] show ?case
    by simp
qed

text \<open>
  C2, as stated: every read failure is delivered to the error stream. Not so when the loop
  returns first: on \<open>quitter\<close> the read fails while the loop is at its \<^verbatim>\<open>select\<close>, the
  \<^verbatim>\<open>select\<close> takes the \<^verbatim>\<open>quitMsg\<close> of the initial command, \<^verbatim>\<open>Start\<close> returns nil, and the
  input goroutine is left at the send of line 109, which cannot go through: the loop has
  received no error.
\<close>

theorem read_failure_not_delivered_counterexample:
  "map_option (reads \<circ> trace)
     (Start quitter
        [C_initTerminal None, C_init_eval, C_cmds_init, C_call 0,
         C_readKey ''k'' (Some ''EOF''), C_msgs_cmd 0]) = Some [(''k'', Some ''EOF'')] \<and>
   map_option (errors_received \<circ> trace)
     (Start quitter
        [C_initTerminal None, C_init_eval, C_cmds_init, C_call 0,
         C_readKey ''k'' (Some ''EOF''), C_msgs_cmd 0]) = Some [] \<and>
   map_option feeder
     (Start quitter
        [C_initTerminal None, C_init_eval, C_cmds_init, C_call 0,
         C_readKey ''k'' (Some ''EOF''), C_msgs_cmd 0]) = Some (F_errs ''k'' ''EOF'') \<and>
   map_option main
     (Start quitter
        [C_initTerminal None, C_init_eval, C_cmds_init, C_call 0,
         C_readKey ''k'' (Some ''EOF''), C_msgs_cmd 0]) = Some (M_returned None) \<and>
   Start quitter
     [C_initTerminal None, C_init_eval, C_cmds_init, C_call 0,
      C_readKey ''k'' (Some ''EOF''), C_msgs_cmd 0, C_errs] = None"
  by (simp add: run_defs quitter_def reads_def errors_received_def)

text \<open>
  C2, amended: let \<^verbatim>\<open>ReadKey\<close> fail with \<open>e\<close> in any configuration of a run. From then on
  the input goroutine makes no further read and delivers no message, whatever the
  schedule. It delivers that error at most once: either it is still waiting at line 109
  and the loop has received no error, or it has delivered exactly that error, once,
  \<^verbatim>\<open>Start\<close> has returned it, and the goroutine is at the send of line 111 (it does not
  return: there is no \<^verbatim>\<open>return\<close> after line 109). While it waits at line 109 the send can
  go through whenever the loop is at its \<^verbatim>\<open>select\<close>, and \<^verbatim>\<open>Start\<close> then returns \<open>e\<close>; once
  the loop has returned without it, the goroutine waits at line 109 for ever and the
  error is never received.
\<close>

theorem read_failure_stops_feeder:
  assumes "Start p s1 = Some c0"
    and "step c0 (C_readKey k (Some e)) = Some c1"
    and "exec c1 s2 = Some c"
    and "exec c s3 = Some c'"
  shows "reads (since c1 c') = [] \<and> keys_received (since c1 c') = [] \<and>
         (feeder c' = F_errs k e \<and> errors_received (since c1 c') = [] \<and>
            (\<forall>model. main c' = M_select model \<longrightarrow>
               map_option main (step c' C_errs) = Some (M_returned (Some e))) \<or>
          feeder c' = F_msgs k (Some e) \<and> errors_received (since c1 c') = [e] \<and>
            main c' = M_returned (Some e)) \<and>
         (\<forall>r. main c = M_returned r \<and> feeder c = F_errs k e \<longrightarrow>
            main c' = M_returned r \<and> feeder c' = F_errs k e \<and>
            errors_received (since c1 c') = [] \<and> step c' C_errs = None)"
proof -
  have run: "exec c1 (s2 @ s3) = Some c'"
    using assms(3,4) by (simp add: exec_append)
  note first = feeder_after_failure [OF assms(1,2) run]
  have last: "main c' = M_returned r \<and> feeder c' = F_errs k e \<and>
            errors_received (since c1 c') = [] \<and> step c' C_errs = None"
    if "main c = M_returned r \<and> feeder c = F_errs k e" for r
  proof -
    from errs_wait_returned_exec [OF assms(4)] that
    have m: "main c' = M_returned r" and f: "feeder c' = F_errs k e"
      by simp_all
    from first f have "errors_received (since c1 c') = []"
      by auto
    moreover from m have "step c' C_errs = None"
      by (simp add: step_def split: feeder_state.splits)
    ultimately show ?thesis
      using m f by simp
  qed
  from first last show ?thesis
    by blast
qed

theorem read_failure_stops_feeder_witness:
  "(\<exists>c0 c1 c c'.
      Start two_frames [C_initTerminal None] = Some c0 \<and>
      step c0 (C_readKey ''k'' (Some ''EOF'')) = Some c1 \<and>
      exec c1 [C_errs] = Some c \<and>
      exec c [C_done] = Some c' \<and>
      reads (since c1 c') = [] \<and> keys_received (since c1 c') = [] \<and>
      feeder c' = F_msgs ''k'' (Some ''EOF'') \<and> errors_received (since c1 c') = [''EOF''] \<and>
      main c' = M_returned (Some ''EOF'')) \<and>
   (\<exists>c0 c1 c c'.
      Start quitter [C_initTerminal None, C_init_eval, C_cmds_init, C_call 0] = Some c0 \<and>
      step c0 (C_readKey ''k'' (Some ''EOF'')) = Some c1 \<and>
      exec c1 [C_msgs_cmd 0] = Some c \<and>
      exec c [C_done] = Some c' \<and>
      main c = M_returned None \<and> feeder c = F_errs ''k'' ''EOF'' \<and>
      reads (since c1 c') = [] \<and> keys_received (since c1 c') = [] \<and>
      main c' = M_returned None \<and> feeder c' = F_errs ''k'' ''EOF'' \<and>
      errors_received (since c1 c') = [] \<and> step c' C_errs = None)"
proof -
  have delivered: "\<exists>c0 c1 c c'.
      Start two_frames [C_initTerminal None] = Some c0 \<and>
      step c0 (C_readKey ''k'' (Some ''EOF'')) = Some c1 \<and>
      exec c1 [C_errs] = Some c \<and>
      exec c [C_done] = Some c' \<and>
      reads (since c1 c') = [] \<and> keys_received (since c1 c') = [] \<and>
      feeder c' = F_msgs ''k'' (Some ''EOF'') \<and> errors_received (since c1 c') = [''EOF''] \<and>
      main c' = M_returned (Some ''EOF'')"
  proof -
    define c0 where "c0 = the (Start two_frames [C_initTerminal None])"
    define c1 where "c1 = the (step c0 (C_readKey ''k'' (Some ''EOF'')))"
    define c where "c = the (exec c1 [C_errs])"
    define c' where "c' = the (exec c [C_done])"
    have 0: "Start two_frames [C_initTerminal None] = Some c0"
      unfolding c0_def by (simp add: run_defs two_frames_def)
    have 1: "step c0 (C_readKey ''k'' (Some ''EOF'')) = Some c1"
      unfolding c1_def c0_def by (simp add: run_defs two_frames_def)
    have 2: "exec c1 [C_errs] = Some c"
      unfolding c_def c1_def c0_def by (simp add: run_defs two_frames_def)
    have 3: "exec c [C_done] = Some c'"
      unfolding c'_def c_def c1_def c0_def by (simp add: run_defs two_frames_def)
    have f: "feeder c' = F_msgs ''k'' (Some ''EOF'')"
      unfolding c'_def c_def c1_def c0_def by (simp add: run_defs two_frames_def)
    from read_failure_stops_feeder [OF 0 1 2 3] f 0 1 2 3 show ?thesis
      by auto
  qed
  have undelivered: "\<exists>c0 c1 c c'.
      Start quitter [C_initTerminal None, C_init_eval, C_cmds_init, C_call 0] = Some c0 \<and>
      step c0 (C_readKey ''k'' (Some ''EOF'')) = Some c1 \<and>
      exec c1 [C_msgs_cmd 0] = Some c \<and>
      exec c [C_done] = Some c' \<and>
      main c = M_returned None \<and> feeder c = F_errs ''k'' ''EOF'' \<and>
      reads (since c1 c') = [] \<and> keys_received (since c1 c') = [] \<and>
      main c' = M_returned None \<and> feeder c' = F_errs ''k'' ''EOF'' \<and>
      errors_received (since c1 c') = [] \<and> step c' C_errs = None"
  proof -
    define c0 where
      "c0 = the (Start quitter [C_initTerminal None, C_init_eval, C_cmds_init, C_call 0])"
    define c1 where "c1 = the (step c0 (C_readKey ''k'' (Some ''EOF'')))"
    define c where "c = the (exec c1 [C_msgs_cmd 0])"
    define c' where "c' = the (exec c [C_done])"
    have 0: "Start quitter [C_initTerminal None, C_init_eval, C_cmds_init, C_call 0] = Some c0"
      unfolding c0_def by (simp add: run_defs quitter_def)
    have 1: "step c0 (C_readKey ''k'' (Some ''EOF'')) = Some c1"
      unfolding c1_def c0_def by (simp add: run_defs quitter_def)
    have 2: "exec c1 [C_msgs_cmd 0] = Some c"
      unfolding c_def c1_def c0_def by (simp add: run_defs quitter_def)
    have 3: "exec c [C_done] = Some c'"
      unfolding c'_def c_def c1_def c0_def by (simp add: run_defs quitter_def)
    have m: "main c = M_returned None"
      unfolding c_def c1_def c0_def by (simp add: run_defs quitter_def)
    have f: "feeder c = F_errs ''k'' ''EOF''"
      unfolding c_def c1_def c0_def by (simp add: run_defs quitter_def)
    from read_failure_stops_feeder [OF 0 1 2 3] m f 0 1 2 3 show ?thesis
      by auto
  qed
  from delivered undelivered show ?thesis
    by (rule conjI)
qed

section \<open>The model is the fold of update over what was delivered\<close>

lemma update_render [simp]: "update (snd (render p model)) = update p"
  by (simp add: render_def Let_def)

lemma init_render [simp]: "init (snd (render p model)) = init p"
  by (simp add: render_def Let_def)

lemma delivered_simps [simp]:
  "delivered [] = []"
  "delivered (xs @ ys) = delivered xs @ delivered ys"
  "delivered (ev # tr) = (case ev of Recv og msg \<Rightarrow> [msg] | _ \<Rightarrow> []) @ delivered tr"
  "delivered (map Term ops) = []"
  by (simp_all add: delivered_def)

lemma fold_inv_init: "fold_inv p (init_config p)"
  by (simp add: fold_inv_def)

lemma fold_inv_step:
  assumes "fold_inv p c" and "well_formed c" and "step c ch = Some c'"
  shows "fold_inv p c'"
  using assms(3)
proof (cases rule: step_cases)
  case (initTerminal r)
  with assms(1,2) show ?thesis by (cases r) (simp_all add: fold_inv_def well_formed_def)
next
  case (msgs_key k r model)
  with assms(1) show ?thesis
    by (simp add: fold_inv_def main_handle_msg trace_handle_msg ordinary_def)
next
  case (msgs_cmd i m model)
  with assms(1) show ?thesis
    by (cases m) (simp_all add: fold_inv_def main_handle_msg trace_handle_msg ordinary_def)
qed (use assms(1,2) in \<open>simp_all add: fold_inv_def well_formed_def\<close>)

lemma fold_inv_Start:
  assumes "Start p sched = Some c"
  shows "fold_inv p c"
proof -
  have "well_formed c \<and> fold_inv p c"
    using assms unfolding Start_def
    by (rule exec_invariant [where P = "\<lambda>c. well_formed c \<and> fold_inv p c"])
       (auto intro: fold_inv_init fold_inv_step wf_init wf_step)
  then show ?thesis ..
qed

text \<open>
  C6: in every configuration of a run in which the loop is running, its model is the left
  fold of \<^verbatim>\<open>update\<close> over the ordinary messages the loop has received, in the order
  received, starting from the model of \<^verbatim>\<open>init\<close>. This holds whatever else the run did (a
  \<^verbatim>\<open>batchMsg\<close> received in between is fanned out and leaves the model as it is), and the
  messages are those of the input goroutine and those of the command goroutines alike,
  batched or not: \<open>delivered\<close> does not look at the origin.
\<close>

theorem model_is_fold_of_update:
  assumes "Start p sched = Some c"
    and "model_of (main c) = Some model"
  shows "model = foldl (\<lambda>s msg. fst (update p msg s)) (fst (init p))
                   (filter ordinary (delivered (trace c)))"
  using fold_inv_Start [OF assms(1)] assms(2) by (simp add: fold_inv_def)

theorem model_is_fold_of_update_witness:
  "\<exists>c. Start ticker
          [C_initTerminal None, C_init_eval, C_cmds_init, C_call 0, C_readKey ''a'' None,
           C_msgs_key, C_cmds_loop, C_msgs_cmd 0, C_cmds_loop, C_cmds_loop, C_call 1,
           C_msgs_cmd 1, C_cmds_loop, C_call 0, C_msgs_cmd 0] = Some c \<and>
       model_of (main c) = Some 11 \<and>
       delivered (trace c) =
         [KeyMsg ''a'', batchMsg [Fn (AppMsg 7), Fn (AppMsg 3)], AppMsg 3, AppMsg 7] \<and>
       filter ordinary (delivered (trace c)) = [KeyMsg ''a'', AppMsg 3, AppMsg 7] \<and>
       (11::nat) = foldl (\<lambda>s msg. fst (update ticker msg s)) (fst (init ticker))
                     (filter ordinary (delivered (trace c)))"
proof -
  let ?s = "[C_initTerminal None, C_init_eval, C_cmds_init, C_call 0, C_readKey ''a'' None,
           C_msgs_key, C_cmds_loop, C_msgs_cmd 0, C_cmds_loop, C_cmds_loop, C_call 1,
           C_msgs_cmd 1, C_cmds_loop, C_call 0, C_msgs_cmd 0]"
  define c where "c = the (Start ticker ?s)"
  have 0: "Start ticker ?s = Some c"
    unfolding c_def by (simp add: run_defs ticker_def)
  have m: "model_of (main c) = Some 11"
    unfolding c_def by (simp add: run_defs ticker_def)
  have d: "delivered (trace c) =
         [KeyMsg ''a'', batchMsg [Fn (AppMsg 7), Fn (AppMsg 3)], AppMsg 3, AppMsg 7]"
    unfolding c_def by (simp add: run_defs ticker_def)
  have f: "filter ordinary (delivered (trace c)) = [KeyMsg ''a'', AppMsg 3, AppMsg 7]"
    unfolding d by (simp add: ordinary_def)
  from model_is_fold_of_update [OF 0 m] 0 m d f show ?thesis
    by blast
qed

section \<open>The terminal is restored once, on the way out\<close>

lemma restored_once_append:
  "restored_once r es \<Longrightarrow> RestoreTerminal \<notin> set evs \<Longrightarrow> restored_once r (es @ evs)"
  unfolding restored_once_def
  by (elim exE conjE, rule_tac x = pre in exI, rule_tac x = "post @ evs" in exI) simp

lemma restored_once_now:
  "RestoreTerminal \<notin> set es \<Longrightarrow> RestoreTerminal \<notin> set xs \<Longrightarrow>
   restored_once r (es @ xs @ [RestoreTerminal, Return r])"
  unfolding restored_once_def
  by (rule_tac x = "es @ xs" in exI, rule_tac x = "[]" in exI) simp

lemma running_step:
  assumes "step c ch = Some c'" and "model_of (main c) \<noteq> None"
  shows "model_of (main c') \<noteq> None \<and> RestoreTerminal \<notin> set (since c c') \<or>
         (\<exists>r xs. main c' = M_returned r \<and> since c c' = xs @ [RestoreTerminal, Return r] \<and>
            RestoreTerminal \<notin> set xs)"
  using assms
proof (cases rule: step_cases)
  case (msgs_key k r model)
  then show ?thesis
    by (simp add: since_def main_handle_msg trace_handle_msg)
next
  case (msgs_cmd i m model)
  then show ?thesis
    by (cases m) (simp_all add: since_def main_handle_msg trace_handle_msg)
next
  case (cmds_send model cmd)
  then show ?thesis
    by (auto simp: since_def)
qed (simp_all add: since_def)

lemma background_not_restore:
  "list_all background evs \<Longrightarrow> RestoreTerminal \<notin> set evs"
  by (auto simp: list_all_iff background_def)

lemma term_inv_step:
  assumes "term_inv c" and "step c ch = Some c'"
  shows "term_inv c'"
proof -
  from assms(1) obtain es where tr: "trace c = InitTerminal None # es"
    and ns: "main c \<noteq> M_start"
    and run: "model_of (main c) \<noteq> None \<longrightarrow> RestoreTerminal \<notin> set es"
    and ret: "\<forall>r. main c = M_returned r \<longrightarrow> restored_once r es"
    unfolding term_inv_def by blast
  have tr': "trace c' = InitTerminal None # (es @ since c c')"
    using step_trace [OF assms(2)] tr by simp
  have ns': "main c' \<noteq> M_start"
    using not_start_step [OF assms(2) ns] .
  show ?thesis
  proof (cases "model_of (main c) = None")
    case True
    with ns obtain r where r: "main c = M_returned r"
      by (cases "main c") simp_all
    from returned_step [OF assms(2) r]
    have m': "main c' = M_returned r" and bg: "list_all background (since c c')"
      by simp_all
    from ret r have "restored_once r es"
      by simp
    then have "restored_once r (es @ since c c')"
      using background_not_restore [OF bg] by (rule restored_once_append)
    with tr' m' show ?thesis
      unfolding term_inv_def by simp
  next
    case False
    with run have clean: "RestoreTerminal \<notin> set es"
      by simp
    from running_step [OF assms(2) False] show ?thesis
    proof
      assume "model_of (main c') \<noteq> None \<and> RestoreTerminal \<notin> set (since c c')"
      with tr' clean show ?thesis
        unfolding term_inv_def by (cases "main c'") auto
    next
      assume "\<exists>r xs. main c' = M_returned r \<and> since c c' = xs @ [RestoreTerminal, Return r] \<and>
            RestoreTerminal \<notin> set xs"
      then obtain r xs where m': "main c' = M_returned r"
        and sc: "since c c' = xs @ [RestoreTerminal, Return r]"
        and x: "RestoreTerminal \<notin> set xs"
        by blast
      have "restored_once r (es @ since c c')"
        unfolding sc using clean x by (rule restored_once_now)
      with tr' m' show ?thesis
        unfolding term_inv_def by simp
    qed
  qed
qed

lemma term_inv_start: "term_inv (start None (init_config p))"
  by (auto simp: term_inv_def)

lemma idle_no_step:
  assumes "main c = M_returned r" and "feeder c = F_none" and "disp c = D_none"
    and "initcmd c = I_none" and "runners c = []"
  shows "step c ch = None"
proof (cases "step c ch")
  case None
  then show ?thesis .
next
  case (Some c')
  then show ?thesis
    using assms by (cases rule: step_cases) simp_all
qed

text \<open>
  C9: let \<^verbatim>\<open>initTerminal\<close> answer \<open>x\<close> and let \<^verbatim>\<open>Start\<close> have returned \<open>r\<close>. If \<open>x\<close> is an
  error, \<^verbatim>\<open>Start\<close> returned it at once: nothing else happened, \<^verbatim>\<open>restoreTerminal\<close> included,
  and nothing happens afterwards. If raw mode was entered, \<^verbatim>\<open>restoreTerminal\<close> ran exactly
  once, immediately before \<^verbatim>\<open>Start\<close> returned, on whichever path it returned (a \<^verbatim>\<open>quitMsg\<close>,
  an error of the input goroutine).
\<close>

theorem restoreTerminal_on_exit:
  assumes "Start p (C_initTerminal x # s) = Some c"
    and "main c = M_returned r"
  shows "case x of
           Some e \<Rightarrow> s = [] \<and> r = Some e \<and> trace c = [InitTerminal (Some e), Return (Some e)]
         | None \<Rightarrow>
             (\<exists>pre post. trace c = InitTerminal None # pre @ RestoreTerminal # Return r # post \<and>
                RestoreTerminal \<notin> set pre \<and> RestoreTerminal \<notin> set post)"
proof (cases x)
  case None
  with assms(1) have run: "exec (start None (init_config p)) s = Some c"
    by (simp add: Start_def step_def)
  have "term_inv c"
    using run term_inv_start by (rule exec_invariant) (rule term_inv_step)
  with assms(2) None show ?thesis
    unfolding term_inv_def restored_once_def by auto
next
  case (Some e)
  with assms(1) have run: "exec (start (Some e) (init_config p)) s = Some c"
    by (simp add: Start_def step_def)
  have "step (start (Some e) (init_config p)) ch = None" for ch
    by (rule idle_no_step) simp_all
  with run have "s = []"
    by (cases s) simp_all
  with run assms(2) Some show ?thesis
    by auto
qed

theorem restoreTerminal_on_exit_witness:
  "(\<exists>c. Start two_frames [C_initTerminal None, C_readKey ''k'' (Some ''EOF''), C_errs] = Some c \<and>
        main c = M_returned (Some ''EOF'') \<and>
        (\<exists>pre post.
            trace c = InitTerminal None # pre @ RestoreTerminal # Return (Some ''EOF'') # post \<and>
            RestoreTerminal \<notin> set pre \<and> RestoreTerminal \<notin> set post)) \<and>
   (\<exists>c. Start two_frames [C_initTerminal (Some ''ENOTTY'')] = Some c \<and>
        main c = M_returned (Some ''ENOTTY'') \<and>
        trace c = [InitTerminal (Some ''ENOTTY''), Return (Some ''ENOTTY'')])"
proof -
  define c where
    "c = the (Start two_frames [C_initTerminal None, C_readKey ''k'' (Some ''EOF''), C_errs])"
  define d where "d = the (Start two_frames [C_initTerminal (Some ''ENOTTY'')])"
  have 0: "Start two_frames (C_initTerminal None # [C_readKey ''k'' (Some ''EOF''), C_errs]) = Some c"
    unfolding c_def by (simp add: run_defs two_frames_def)
  have m: "main c = M_returned (Some ''EOF'')"
    unfolding c_def by (simp add: run_defs two_frames_def)
  have 1: "Start two_frames (C_initTerminal (Some ''ENOTTY'') # []) = Some d"
    unfolding d_def by (simp add: run_defs two_frames_def)
  have n: "main d = M_returned (Some ''ENOTTY'')"
    unfolding d_def by (simp add: run_defs two_frames_def)
  from restoreTerminal_on_exit [OF 0 m] restoreTerminal_on_exit [OF 1 n] 0 m 1 n
  show ?thesis
    by simp
qed

section \<open>The fan-out of a batch\<close>

lemma submitted_by_simps [simp]:
  "submitted_by who [] = []"
  "submitted_by who (xs @ ys) = submitted_by who xs @ submitted_by who ys"
  "submitted_by who (ev # tr) =
     (case ev of Submit w cmd \<Rightarrow> (if w = who then [cmd] else []) | _ \<Rightarrow> []) @ submitted_by who tr"
  by (simp_all add: submitted_by_def)

lemma spawned_by_simps [simp]:
  "spawned_by who [] = []"
  "spawned_by who (xs @ ys) = spawned_by who xs @ spawned_by who ys"
  "spawned_by who (ev # tr) =
     (case ev of Spawn w cmd \<Rightarrow> (if w = who then [cmd] else []) | _ \<Rightarrow> []) @ spawned_by who tr"
  by (simp_all add: spawned_by_def)

lemma background_by_loop:
  "list_all background evs \<Longrightarrow>
   submitted_by ByLoop evs = [] \<and> spawned_by ByLoop evs = [] \<and> (\<forall>msg. Update msg \<notin> set evs)"
  by (induction evs) (auto simp: background_def split: event.splits)

lemma batch_step:
  assumes "step d ch = Some d1" and "\<not> is_receive ch" and "main d = batch_next model rest"
  shows "ch = C_cmds_loop \<and>
           (\<exists>cmd rest'. rest = cmd # rest' \<and> main d1 = batch_next model rest' \<and>
              since d d1 = Submit ByLoop cmd # (if cmd \<noteq> NilCmd then [Spawn ByLoop cmd] else [])) \<or>
         ch \<noteq> C_cmds_loop \<and> main d1 = main d \<and> list_all background (since d d1)"
  using assms
  by (cases rule: step_cases) (auto simp: since_def background_def)

lemma batch_run:
  assumes "exec d s = Some d'" and "\<forall>x \<in> set s. \<not> is_receive x"
    and "main d = batch_next model rest"
  shows "count_list s C_cmds_loop \<le> length rest \<and>
         submitted_by ByLoop (since d d') = take (count_list s C_cmds_loop) rest \<and>
         spawned_by ByLoop (since d d') =
           filter (\<lambda>cmd. cmd \<noteq> NilCmd) (take (count_list s C_cmds_loop) rest) \<and>
         (\<forall>msg. Update msg \<notin> set (since d d')) \<and>
         main d' = batch_next model (drop (count_list s C_cmds_loop) rest)"
  using assms
proof (induction s arbitrary: d rest)
  case Nil
  then show ?case by (simp add: since_def)
next
  case (Cons ch s)
  then obtain d1 where 1: "step d ch = Some d1" and 2: "exec d1 s = Some d'"
    by (auto split: option.splits)
  from Cons.prems(2) have nr: "\<not> is_receive ch" and nrs: "\<forall>x \<in> set s. \<not> is_receive x"
    by simp_all
  have sp: "since d d' = since d d1 @ since d1 d'"
    using since_trans [OF step_trace [OF 1] exec_trace [OF 2]] .
  from batch_step [OF 1 nr Cons.prems(3)] show ?case
  proof
    assume a: "ch = C_cmds_loop \<and>
           (\<exists>cmd rest'. rest = cmd # rest' \<and> main d1 = batch_next model rest' \<and>
              since d d1 = Submit ByLoop cmd # (if cmd \<noteq> NilCmd then [Spawn ByLoop cmd] else []))"
    then obtain cmd rest' where r: "rest = cmd # rest'" and m1: "main d1 = batch_next model rest'"
      and s1: "since d d1 = Submit ByLoop cmd # (if cmd \<noteq> NilCmd then [Spawn ByLoop cmd] else [])"
      by blast
    from Cons.IH [OF 2 nrs m1] a r s1 sp show ?thesis
      by simp
  next
    assume b: "ch \<noteq> C_cmds_loop \<and> main d1 = main d \<and> list_all background (since d d1)"
    then have m1: "main d1 = batch_next model rest"
      using Cons.prems(3) by simp
    from b background_by_loop [of "since d d1"]
    have bg: "submitted_by ByLoop (since d d1) = []" "spawned_by ByLoop (since d d1) = []"
      "\<forall>msg. Update msg \<notin> set (since d d1)"
      by simp_all
    from Cons.IH [OF 2 nrs m1] b bg sp show ?thesis
      by simp
  qed
qed

lemma batch_received:
  assumes "step c0 ch = Some c1" and "Recv og (batchMsg cs) \<in> set (since c0 c1)"
  shows "\<exists>model. main c0 = M_select model \<and> main c1 = batch_next model cs \<and>
           since c0 c1 = [Recv og (batchMsg cs)]"
  using assms
proof (cases rule: step_cases)
  case (initTerminal r)
  then show ?thesis using assms(2) by (cases r) (auto simp: since_def)
next
  case (msgs_key k r model)
  then show ?thesis using assms(2)
    by (auto simp: since_def trace_handle_msg main_handle_msg)
next
  case (msgs_cmd i m model)
  then show ?thesis using assms(2)
    by (cases m) (auto simp: since_def trace_handle_msg main_handle_msg)
qed (auto simp: since_def split: option.splits)

lemma batch_can_submit:
  assumes "well_formed c" and "main c = M_batch model (cmd # rest)"
  shows "step c C_cmds_loop \<noteq> None"
  using assms by (simp add: well_formed_def step_def)

text \<open>
  C5: let the loop receive a \<^verbatim>\<open>batchMsg\<close> with the commands \<open>cs\<close>, and let the system go on
  in any way (\<open>s2\<close>) short of the loop receiving again. After the loop's \<open>k\<close>-th send on
  \<^verbatim>\<open>cmds\<close> the commands it has handed to the dispatching goroutine are the first \<open>k\<close> of
  \<open>cs\<close>, in list order, and the goroutines started for them are those of the non-nil ones
  among these. There are at most \<open>length cs\<close> such sends; while fewer have been made the
  next one can be made, and after the last the loop is back at its \<^verbatim>\<open>select\<close> with the model
  it had. \<^verbatim>\<open>update\<close> is not called, on the \<^verbatim>\<open>batchMsg\<close> or on anything else.
\<close>

theorem batch_fans_out:
  assumes "Start p s1 = Some c0"
    and "step c0 ch = Some c1"
    and "Recv og (batchMsg cs) \<in> set (since c0 c1)"
    and "exec c1 s2 = Some c"
    and "\<forall>x \<in> set s2. \<not> is_receive x"
  shows "count_list s2 C_cmds_loop \<le> length cs \<and>
         submitted_by ByLoop (since c1 c) = take (count_list s2 C_cmds_loop) cs \<and>
         spawned_by ByLoop (since c1 c) =
           filter (\<lambda>cmd. cmd \<noteq> NilCmd) (take (count_list s2 C_cmds_loop) cs) \<and>
         (\<forall>msg. Update msg \<notin> set (since c0 c)) \<and>
         model_of (main c) = model_of (main c0) \<and>
         (if count_list s2 C_cmds_loop < length cs then step c C_cmds_loop \<noteq> None
          else main c = main c0)"
proof -
  from batch_received [OF assms(2,3)] obtain model
    where m0: "main c0 = M_select model" and m1: "main c1 = batch_next model cs"
      and e1: "since c0 c1 = [Recv og (batchMsg cs)]"
    by blast
  let ?k = "count_list s2 C_cmds_loop"
  note run = batch_run [OF assms(4,5) m1]
  have sp: "since c0 c = since c0 c1 @ since c1 c"
    using since_trans [OF step_trace [OF assms(2)] exec_trace [OF assms(4)]] .
  have up: "\<forall>msg. Update msg \<notin> set (since c0 c)"
    using run e1 sp by simp
  have mo: "model_of (main c) = model_of (main c0)"
    using run m0 by simp
  have wfc: "well_formed c"
    using wf_exec [OF assms(4) wf_step [OF wf_Start [OF assms(1)] assms(2)]] .
  have last: "if ?k < length cs then step c C_cmds_loop \<noteq> None else main c = main c0"
  proof (cases "?k < length cs")
    case True
    then obtain cmd rest where "drop ?k cs = cmd # rest"
      by (cases "drop ?k cs") simp_all
    with run have "main c = M_batch model (cmd # rest)"
      by (simp add: batch_next_def)
    with wfc True show ?thesis
      by (simp add: batch_can_submit)
  next
    case False
    with run m0 show ?thesis
      by (simp add: batch_next_def)
  qed
  from run up mo last show ?thesis
    by simp
qed

theorem batch_fans_out_witness:
  "\<exists>c0 c1 c.
     Start batcher [C_initTerminal None, C_init_eval, C_cmds_init, C_call 0] = Some c0 \<and>
     step c0 (C_msgs_cmd 0) = Some c1 \<and>
     Recv Command (batchMsg [Fn (AppMsg 1), NilCmd, Fn (AppMsg 2)]) \<in> set (since c0 c1) \<and>
     exec c1 [C_cmds_loop, C_readKey ''a'' None, C_cmds_loop, C_cmds_loop] = Some c \<and>
     list_all (\<lambda>x. \<not> is_receive x) [C_cmds_loop, C_readKey ''a'' None, C_cmds_loop, C_cmds_loop] \<and>
     submitted_by ByLoop (since c1 c) = [Fn (AppMsg 1), NilCmd, Fn (AppMsg 2)] \<and>
     spawned_by ByLoop (since c1 c) = [Fn (AppMsg 1), Fn (AppMsg 2)] \<and>
     (\<forall>msg. Update msg \<notin> set (since c0 c)) \<and>
     main c = main c0"
proof -
  let ?s2 = "[C_cmds_loop, C_readKey ''a'' None, C_cmds_loop, C_cmds_loop]"
  define c0 where "c0 = the (Start batcher [C_initTerminal None, C_init_eval, C_cmds_init, C_call 0])"
  define c1 where "c1 = the (step c0 (C_msgs_cmd 0))"
  define c where "c = the (exec c1 ?s2)"
  have 0: "Start batcher [C_initTerminal None, C_init_eval, C_cmds_init, C_call 0] = Some c0"
    unfolding c0_def by (simp add: run_defs batcher_def)
  have 1: "step c0 (C_msgs_cmd 0) = Some c1"
    unfolding c1_def c0_def by (simp add: run_defs batcher_def)
  have r: "Recv Command (batchMsg [Fn (AppMsg 1), NilCmd, Fn (AppMsg 2)]) \<in> set (since c0 c1)"
    unfolding c1_def c0_def by (simp add: run_defs batcher_def)
  have 2: "exec c1 ?s2 = Some c"
    unfolding c_def c1_def c0_def by (simp add: run_defs batcher_def)
  have 3: "\<forall>x \<in> set ?s2. \<not> is_receive x"
    by simp
  have k: "count_list ?s2 C_cmds_loop = 3"
    by simp
  from batch_fans_out [OF 0 1 r 2 3] 0 1 r 2 show ?thesis
    unfolding k by (intro exI [of _ c0] exI [of _ c1] exI [of _ c]) simp
qed

section \<open>Commands handed over, started, called and answered\<close>

lemma calls_simps [simp]:
  "calls [] = []"
  "calls (xs @ ys) = calls xs @ calls ys"
  "calls (r # rs) = (case r of R_call cmd \<Rightarrow> [cmd] | R_send msg \<Rightarrow> []) @ calls rs"
  by (simp_all add: calls_def)

lemma sends_simps [simp]:
  "sends [] = []"
  "sends (xs @ ys) = sends xs @ sends ys"
  "sends (r # rs) = (case r of R_call cmd \<Rightarrow> [] | R_send msg \<Rightarrow> [msg]) @ sends rs"
  by (simp_all add: sends_def)

lemma submitted_simps [simp]:
  "submitted [] = []"
  "submitted (xs @ ys) = submitted xs @ submitted ys"
  "submitted (ev # tr) = (case ev of Submit who cmd \<Rightarrow> [cmd] | _ \<Rightarrow> []) @ submitted tr"
  "submitted (map Term ops) = []"
  by (simp_all add: submitted_def)

lemma spawned_simps [simp]:
  "spawned [] = []"
  "spawned (xs @ ys) = spawned xs @ spawned ys"
  "spawned (ev # tr) = (case ev of Spawn who cmd \<Rightarrow> [cmd] | _ \<Rightarrow> []) @ spawned tr"
  "spawned (map Term ops) = []"
  by (simp_all add: spawned_def)

lemma executed_simps [simp]:
  "executed [] = []"
  "executed (xs @ ys) = executed xs @ executed ys"
  "executed (ev # tr) = (case ev of Exec cmd \<Rightarrow> [cmd] | _ \<Rightarrow> []) @ executed tr"
  "executed (map Term ops) = []"
  by (simp_all add: executed_def)

lemma results_simps [simp]:
  "results [] = []"
  "results (xs @ ys) = results xs @ results ys"
  "results (ev # tr) =
     (case ev of Recv og msg \<Rightarrow> (if og = Command then [msg] else []) | _ \<Rightarrow> []) @ results tr"
  "results (map Term ops) = []"
  by (simp_all add: results_def)

lemma runner_at:
  assumes "i < length rs"
  obtains xs ys where "rs = xs @ rs ! i # ys" and "\<And>r. rs[i := r] = xs @ r # ys"
    and "take i rs @ drop (Suc i) rs = xs @ ys"
proof
  show "rs = take i rs @ rs ! i # drop (Suc i) rs"
    using assms by (rule id_take_nth_drop)
  show "rs[i := r] = take i rs @ r # drop (Suc i) rs" for r
    using assms by (rule upd_conv_take_nth_drop)
  show "take i rs @ drop (Suc i) rs = take i rs @ drop (Suc i) rs" ..
qed

lemma runner_called:
  assumes "i < length rs" and "rs ! i = R_call cmd"
  shows "mset (calls rs) = add_mset cmd (mset (calls (rs[i := R_send msg]))) \<and>
         mset (sends (rs[i := R_send msg])) = mset (sends rs) + {#msg#}"
proof -
  from runner_at [OF assms(1)] obtain xs ys
    where 1: "rs = xs @ rs ! i # ys" and 2: "rs[i := R_send msg] = xs @ R_send msg # ys"
    by metis
  from 1 assms(2) have 3: "rs = xs @ R_call cmd # ys"
    by simp
  have "calls rs = calls xs @ cmd # calls ys" "sends rs = sends xs @ sends ys"
    by (subst 3, simp)+
  then show ?thesis
    unfolding 2 by simp
qed

lemma runner_answered:
  assumes "i < length rs" and "rs ! i = R_send msg"
  shows "calls (take i rs @ drop (Suc i) rs) = calls rs \<and>
         mset (sends rs) = mset (sends (take i rs @ drop (Suc i) rs)) + {#msg#}"
proof -
  from runner_at [OF assms(1)] obtain xs ys
    where 1: "rs = xs @ rs ! i # ys" and 2: "take i rs @ drop (Suc i) rs = xs @ ys"
    by metis
  from 1 assms(2) have 3: "rs = xs @ R_send msg # ys"
    by simp
  have "calls rs = calls xs @ calls ys" "sends rs = sends xs @ msg # sends ys"
    by (subst 3, simp)+
  then show ?thesis
    unfolding 2 by simp
qed

lemma cmd_inv_step:
  assumes "cmd_inv c" and "step c ch = Some c'"
  shows "cmd_inv c'"
  using assms(2)
proof (cases rule: step_cases)
  case (initTerminal r)
  with assms(1) show ?thesis by (cases r) (simp_all add: cmd_inv_def)
next
  case (msgs_key k r model)
  with assms(1) show ?thesis
    by (simp add: cmd_inv_def trace_handle_msg)
next
  case (call i m)
  with assms(1) runner_called [OF call(2,3), of m] show ?thesis
    by (simp add: cmd_inv_def)
next
  case (msgs_cmd i m model)
  with assms(1) runner_answered [OF msgs_cmd(2,3)] show ?thesis
    by (cases m) (simp_all add: cmd_inv_def trace_handle_msg)
qed (use assms(1) in \<open>simp_all add: cmd_inv_def\<close>)

lemma cmd_inv_init: "cmd_inv (init_config p)"
  by (simp add: cmd_inv_def)

text \<open>
  C3, as stated: only non-nil commands are handed to the dispatcher. Not so: line 154 sends
  the command that \<^verbatim>\<open>update\<close> returned without testing it (and so does line 148 with the
  elements of a batch). On \<open>two_frames\<close>, whose \<^verbatim>\<open>update\<close> returns the nil command, one
  key press makes the loop hand the nil command to the dispatching goroutine.
\<close>

theorem nil_command_handed_over_counterexample:
  "map_option (submitted \<circ> trace)
     (Start two_frames [C_initTerminal None, C_readKey ''a'' None, C_msgs_key, C_cmds_loop]) =
   Some [NilCmd]"
  by (simp add: run_defs two_frames_def)

text \<open>
  C3, amended: a nil command may be handed to the dispatching goroutine, which drops it
  (line 122). In every configuration of a run the goroutines started are those of the
  non-nil commands handed over, in order; no goroutine is started for the nil command and
  the nil command is never called; every command called is one a goroutine was started
  for, and every message the loop received from a command goroutine is the result of a
  call of its own.
\<close>

theorem nil_command_never_executed:
  assumes "Start p sched = Some c"
  shows "spawned (trace c) = filter (\<lambda>cmd. cmd \<noteq> NilCmd) (submitted (trace c)) \<and>
         NilCmd \<notin> set (spawned (trace c)) \<and>
         NilCmd \<notin> set (executed (trace c)) \<and>
         mset (executed (trace c)) \<subseteq># mset (spawned (trace c)) \<and>
         mset (map Fn (results (trace c))) \<subseteq># mset (executed (trace c))"
proof -
  have inv: "cmd_inv c"
    using assms unfolding Start_def
    by (rule exec_invariant) (auto intro: cmd_inv_init cmd_inv_step)
  then have 1: "spawned (trace c) = filter (\<lambda>cmd. cmd \<noteq> NilCmd) (submitted (trace c))"
    and 2: "mset (executed (trace c)) \<subseteq># mset (spawned (trace c))"
    and 3: "mset (map Fn (results (trace c))) \<subseteq># mset (executed (trace c))"
    by (simp_all add: cmd_inv_def del: mset_map)
  have 4: "NilCmd \<notin> set (spawned (trace c))"
    by (subst 1) simp
  from 2 have "set (executed (trace c)) \<subseteq> set (spawned (trace c))"
    by (metis set_mset_mono set_mset_mset)
  with 4 have 5: "NilCmd \<notin> set (executed (trace c))"
    by blast
  from 1 2 3 4 5 show ?thesis
    by blast
qed

theorem nil_command_never_executed_witness:
  "\<exists>c. Start batcher
          [C_initTerminal None, C_init_eval, C_cmds_init, C_call 0, C_msgs_cmd 0, C_cmds_loop, C_cmds_loop,
           C_cmds_loop, C_call 0, C_msgs_cmd 0] = Some c \<and>
       submitted (trace c) =
         [Fn (batchMsg [Fn (AppMsg 1), NilCmd, Fn (AppMsg 2)]), Fn (AppMsg 1), NilCmd,
          Fn (AppMsg 2)] \<and>
       spawned (trace c) = filter (\<lambda>cmd. cmd \<noteq> NilCmd) (submitted (trace c)) \<and>
       NilCmd \<notin> set (spawned (trace c)) \<and>
       NilCmd \<notin> set (executed (trace c)) \<and>
       mset (executed (trace c)) \<subseteq># mset (spawned (trace c)) \<and>
       mset (map Fn (results (trace c))) \<subseteq># mset (executed (trace c))"
proof -
  let ?s = "[C_initTerminal None, C_init_eval, C_cmds_init, C_call 0, C_msgs_cmd 0, C_cmds_loop, C_cmds_loop,
           C_cmds_loop, C_call 0, C_msgs_cmd 0]"
  define c where "c = the (Start batcher ?s)"
  have 0: "Start batcher ?s = Some c"
    unfolding c_def by (simp add: run_defs batcher_def)
  have s: "submitted (trace c) =
         [Fn (batchMsg [Fn (AppMsg 1), NilCmd, Fn (AppMsg 2)]), Fn (AppMsg 1), NilCmd,
          Fn (AppMsg 2)]"
    unfolding c_def by (simp add: run_defs batcher_def)
  from nil_command_never_executed [OF 0] 0 s show ?thesis
    by blast
qed

end
